theory Spec2Isabelle
  imports Main
begin

section \<open>The Connect Four rule-based agent (\<^verbatim>\<open>exercice3/smart_agent.py\<close>)\<close>

subsection \<open>Data model\<close>

text \<open>
  The agent reads a numpy array of shape \<open>(6, 7, 2)\<close>: six rows (row 0 is the top, row 5
  the bottom), seven columns and two occupancy layers. The source only ever indexes the
  last axis with the literals \<open>0\<close> (the mover, "nous") and \<open>1\<close> (the opponent,
  "adversaire"), so the layer index is a two-valued type. A board is the contents of the
  array; the shape is fixed, and every read of the model is either guarded by the bounds
  test the source itself performs, or raises \<open>IndexError\<close> where numpy would.
  Cell values are numbers that the source compares with \<open>0\<close> and \<open>1\<close>.
\<close>

datatype channel = Mover | Opponent

type_synonym board = "nat \<Rightarrow> nat \<Rightarrow> channel \<Rightarrow> int"

datatype error = IndexError | TypeError

text \<open>
  \<^verbatim>\<open>board_copy[row, col, channel] = 1\<close> on an array of value semantics. At both places
  where the source assigns, \<open>row\<close> was returned by \<open>_get_next_row\<close> and \<open>col\<close> passed its
  reads, so the index is inside the array.
\<close>

definition set_cell :: "board \<Rightarrow> nat \<Rightarrow> nat \<Rightarrow> channel \<Rightarrow> int \<Rightarrow> board" where
  "set_cell b row col ch v = (\<lambda>r c k. if r = row \<and> c = col \<and> k = ch then v else b r c k)"

subsection \<open>\<^verbatim>\<open>_get_valid_actions\<close>\<close>

text \<open>
  \<^verbatim>\<open>[col for col in range(len(action_mask)) if action_mask[col] == 1]\<close>
\<close>

definition get_valid_actions :: "int list \<Rightarrow> nat list" where
  "get_valid_actions action_mask =
     filter (\<lambda>col. action_mask ! col = 1) [0..<length action_mask]"

subsection \<open>\<^verbatim>\<open>_get_next_row\<close>\<close>

text \<open>
  \<^verbatim>\<open>for row in range(5, -1, -1): if board[row, col, 0] == 0 and board[row, col, 1] == 0:
  return row\<close>, then \<^verbatim>\<open>return None\<close>. The rows are always inside the array; a column
  index of 7 or more makes the first read raise \<open>IndexError\<close>.
\<close>

fun next_row_loop :: "board \<Rightarrow> nat \<Rightarrow> nat list \<Rightarrow> nat option" where
  "next_row_loop board col [] = None"
| "next_row_loop board col (row # rows) =
     (if board row col Mover = 0 \<and> board row col Opponent = 0 then Some row
      else next_row_loop board col rows)"

definition get_next_row :: "board \<Rightarrow> nat \<Rightarrow> error + nat option" where
  "get_next_row board col =
     (if 7 \<le> col then Inl IndexError else Inr (next_row_loop board col (rev [0..<6])))"

subsection \<open>\<^verbatim>\<open>_check_win_from_position\<close>\<close>

text \<open>
  The two \<^verbatim>\<open>while\<close> loops of the source. Nothing in a loop bounds the number of its
  iterations by itself (a step of \<open>(0, 0)\<close> on an occupied cell would never leave it), so
  each loop is a partial function: \<open>None\<close> is a loop that does not return.
\<close>

partial_function (option) count_positive ::
  "board \<Rightarrow> channel \<Rightarrow> int \<Rightarrow> int \<Rightarrow> int \<Rightarrow> int \<Rightarrow> nat \<Rightarrow> nat option" where
  "count_positive board channel dr dc r c count =
     (if 0 \<le> r \<and> r < 6 \<and> 0 \<le> c \<and> c < 7 \<and> board (nat r) (nat c) channel = 1
      then count_positive board channel dr dc (r + dr) (c + dc) (count + 1)
      else Some count)"

partial_function (option) count_negative ::
  "board \<Rightarrow> channel \<Rightarrow> int \<Rightarrow> int \<Rightarrow> int \<Rightarrow> int \<Rightarrow> nat \<Rightarrow> nat option" where
  "count_negative board channel dr dc r c count =
     (if 0 \<le> r \<and> r < 6 \<and> 0 \<le> c \<and> c < 7 \<and> board (nat r) (nat c) channel = 1
      then count_negative board channel dr dc (r - dr) (c - dc) (count + 1)
      else Some count)"

declare count_positive.simps [code]
declare count_negative.simps [code]

definition directions :: "(int \<times> int) list" where
  "directions = [(0, 1), (1, 0), (-1, 1), (1, 1)]"

text \<open>
  The body of \<^verbatim>\<open>for dr, dc in directions\<close>: the count starts at 1, the positive loop
  starts at \<open>(row + dr, col + dc)\<close>, the negative one at \<open>(row - dr, col - dc)\<close>; the first
  direction with \<open>count >= 4\<close> returns \<open>True\<close>, and the end of the list \<open>False\<close>.
\<close>

fun check_directions ::
  "board \<Rightarrow> nat \<Rightarrow> nat \<Rightarrow> channel \<Rightarrow> (int \<times> int) list \<Rightarrow> bool option" where
  "check_directions board row col channel [] = Some False"
| "check_directions board row col channel ((dr, dc) # rest) =
     (case count_positive board channel dr dc (int row + dr) (int col + dc) 1 of
        None \<Rightarrow> None
      | Some count \<Rightarrow>
          (case count_negative board channel dr dc (int row - dr) (int col - dc) count of
             None \<Rightarrow> None
           | Some count' \<Rightarrow>
               if 4 \<le> count' then Some True
               else check_directions board row col channel rest))"

definition check_win_from_position :: "board \<Rightarrow> nat \<Rightarrow> nat \<Rightarrow> channel \<Rightarrow> bool option" where
  "check_win_from_position board row col channel =
     check_directions board row col channel directions"

subsection \<open>\<^verbatim>\<open>_find_winning_move\<close>\<close>

text \<open>
  Results of the functions that call both of the above are of type
  \<open>(error + 'a) option\<close>: \<open>None\<close> is a call that does not return, \<open>Some (Inl e)\<close> a raised
  exception and \<open>Some (Inr v)\<close> the returned value (Python's \<open>None\<close> is the \<open>None\<close> inside
  \<open>Inr\<close>).
\<close>

fun find_winning_move :: "board \<Rightarrow> nat list \<Rightarrow> channel \<Rightarrow> (error + nat option) option" where
  "find_winning_move observation [] channel = Some (Inr None)"
| "find_winning_move observation (col # rest) channel =
     (case get_next_row observation col of
        Inl e \<Rightarrow> Some (Inl e)
      | Inr None \<Rightarrow> find_winning_move observation rest channel
      | Inr (Some row) \<Rightarrow>
          (case check_win_from_position (set_cell observation row col channel 1) row col channel of
             None \<Rightarrow> None
           | Some True \<Rightarrow> Some (Inr (Some col))
           | Some False \<Rightarrow> find_winning_move observation rest channel))"

subsection \<open>\<^verbatim>\<open>_creates_double_threat\<close>\<close>

text \<open>
  The loop \<^verbatim>\<open>for next_col in range(7)\<close> with its counter \<open>winning_moves\<close>. A full column
  is skipped by \<^verbatim>\<open>continue\<close>, before the test \<^verbatim>\<open>winning_moves >= 2\<close>.
\<close>

fun double_threat_loop :: "board \<Rightarrow> channel \<Rightarrow> nat list \<Rightarrow> nat \<Rightarrow> (error + bool) option" where
  "double_threat_loop board_copy channel [] winning_moves = Some (Inr False)"
| "double_threat_loop board_copy channel (next_col # rest) winning_moves =
     (case get_next_row board_copy next_col of
        Inl e \<Rightarrow> Some (Inl e)
      | Inr None \<Rightarrow> double_threat_loop board_copy channel rest winning_moves
      | Inr (Some next_row) \<Rightarrow>
          (case check_win_from_position (set_cell board_copy next_row next_col channel 1)
                  next_row next_col channel of
             None \<Rightarrow> None
           | Some won \<Rightarrow>
               (let winning_moves' = (if won then winning_moves + 1 else winning_moves)
                in if 2 \<le> winning_moves' then Some (Inr True)
                   else double_threat_loop board_copy channel rest winning_moves')))"

definition creates_double_threat :: "board \<Rightarrow> nat \<Rightarrow> channel \<Rightarrow> (error + bool) option" where
  "creates_double_threat board col channel =
     (case get_next_row board col of
        Inl e \<Rightarrow> Some (Inl e)
      | Inr None \<Rightarrow> Some (Inr False)
      | Inr (Some row) \<Rightarrow>
          double_threat_loop (set_cell board row col channel 1) channel [0..<7] 0)"

subsection \<open>\<^verbatim>\<open>choose_action\<close>\<close>

text \<open>
  The loops of rules 3 and 4: \<^verbatim>\<open>for col in valid_actions:
  if self._creates_double_threat(board, col, channel): return col\<close>.
\<close>

fun double_threat_move :: "board \<Rightarrow> nat list \<Rightarrow> channel \<Rightarrow> (error + nat option) option" where
  "double_threat_move board [] channel = Some (Inr None)"
| "double_threat_move board (col # rest) channel =
     (case creates_double_threat board col channel of
        None \<Rightarrow> None
      | Some (Inl e) \<Rightarrow> Some (Inl e)
      | Some (Inr True) \<Rightarrow> Some (Inr (Some col))
      | Some (Inr False) \<Rightarrow> double_threat_move board rest channel)"

definition center_preference :: "nat list" where
  "center_preference = [3, 2, 4, 1, 5, 0, 6]"

text \<open>
  \<^verbatim>\<open>random.choice(valid_actions)\<close>: \<open>IndexError\<close> on the empty list, otherwise the
  element at an index drawn by the generator, which the model receives as \<open>rnd\<close>.
\<close>

definition random_choice :: "nat \<Rightarrow> nat list \<Rightarrow> error + nat" where
  "random_choice rnd xs = (if xs = [] then Inl IndexError else Inr (xs ! (rnd mod length xs)))"

text \<open>
  The observation is either the PettingZoo dictionary with the keys \<open>observation\<close> and
  \<open>action_mask\<close>, or the array itself; the keyword argument \<open>action_mask\<close> defaults to
  \<open>None\<close>. With the array alone and no mask, \<^verbatim>\<open>len(action_mask)\<close> raises \<open>TypeError\<close>.
  The arguments \<open>reward\<close>, \<open>terminated\<close>, \<open>truncated\<close> and \<open>info\<close> are never read.
\<close>

datatype observation = Dict board "int list" | Direct board

text \<open>
  \<open>select_column\<close> is the body of \<open>choose_action\<close> from rule 1 on, once \<open>board\<close> and
  \<open>valid_actions\<close> are bound: the first rule that applies returns, an exception of a
  callee ends the call, and the last line is the random fall-back.
\<close>

definition select_column :: "board \<Rightarrow> nat list \<Rightarrow> nat \<Rightarrow> (error + nat) option" where
  "select_column board valid_actions rnd =
     (case find_winning_move board valid_actions Mover of
        None \<Rightarrow> None
      | Some (Inl e) \<Rightarrow> Some (Inl e)
      | Some (Inr (Some winning_move)) \<Rightarrow> Some (Inr winning_move)
      | Some (Inr None) \<Rightarrow>
     (case find_winning_move board valid_actions Opponent of
        None \<Rightarrow> None
      | Some (Inl e) \<Rightarrow> Some (Inl e)
      | Some (Inr (Some blocking_move)) \<Rightarrow> Some (Inr blocking_move)
      | Some (Inr None) \<Rightarrow>
     (case double_threat_move board valid_actions Mover of
        None \<Rightarrow> None
      | Some (Inl e) \<Rightarrow> Some (Inl e)
      | Some (Inr (Some col)) \<Rightarrow> Some (Inr col)
      | Some (Inr None) \<Rightarrow>
     (case double_threat_move board valid_actions Opponent of
        None \<Rightarrow> None
      | Some (Inl e) \<Rightarrow> Some (Inl e)
      | Some (Inr (Some col)) \<Rightarrow> Some (Inr col)
      | Some (Inr None) \<Rightarrow>
     (case find (\<lambda>col. col \<in> set valid_actions) center_preference of
        Some col \<Rightarrow> Some (Inr col)
      | None \<Rightarrow> Some (random_choice rnd valid_actions))))))"

definition choose_action :: "observation \<Rightarrow> int list option \<Rightarrow> nat \<Rightarrow> (error + nat) option" where
  "choose_action observation action_mask rnd =
     (case observation of
        Dict board dict_mask \<Rightarrow>
          select_column board
            (get_valid_actions (case action_mask of None \<Rightarrow> dict_mask | Some m \<Rightarrow> m)) rnd
      | Direct board \<Rightarrow>
          (case action_mask of
             None \<Rightarrow> Some (Inl TypeError)
           | Some m \<Rightarrow> select_column board (get_valid_actions m) rnd))"

section \<open>Notions of the specification\<close>

subsection \<open>Alignment\<close>

text \<open>
  A cell counts for a channel when it lies on the grid and the channel's layer holds 1
  there. The run from \<open>(row, col)\<close> along \<open>(dr, dc)\<close> has length \<open>n\<close> when the first
  \<open>n\<close> cells after \<open>(row, col)\<close> count for the channel and the next one does not: it
  lies off the grid, or is empty, or holds the other side's piece. An axis gives four
  when 1, for the placed piece, plus the runs in both senses is at least 4.
\<close>

definition occupied :: "board \<Rightarrow> channel \<Rightarrow> int \<Rightarrow> int \<Rightarrow> bool" where
  "occupied b ch r c \<longleftrightarrow> 0 \<le> r \<and> r < 6 \<and> 0 \<le> c \<and> c < 7 \<and> b (nat r) (nat c) ch = 1"

definition run_of :: "board \<Rightarrow> channel \<Rightarrow> nat \<Rightarrow> nat \<Rightarrow> int \<Rightarrow> int \<Rightarrow> nat \<Rightarrow> bool" where
  "run_of b ch row col dr dc n \<longleftrightarrow>
     (\<forall>k\<in>{1..n}. occupied b ch (int row + int k * dr) (int col + int k * dc)) \<and>
     \<not> occupied b ch (int row + int (n + 1) * dr) (int col + int (n + 1) * dc)"

fun axis_four :: "board \<Rightarrow> channel \<Rightarrow> nat \<Rightarrow> nat \<Rightarrow> int \<times> int \<Rightarrow> bool" where
  "axis_four b ch row col (dr, dc) \<longleftrightarrow>
     (\<exists>p n. run_of b ch row col dr dc p \<and> run_of b ch row col (- dr) (- dc) n \<and>
            4 \<le> 1 + p + n)"

definition aligned_four :: "board \<Rightarrow> nat \<Rightarrow> nat \<Rightarrow> channel \<Rightarrow> bool" where
  "aligned_four b row col ch \<longleftrightarrow>
     (\<exists>d\<in>set [(0, 1), (1, 0), (-1, 1), (1, 1)]. axis_four b ch row col d)"

subsection \<open>Gravity\<close>

text \<open>
  A cell is empty when both layers hold 0. The landing cell of a column is its lowest
  empty cell: the empty cell of the largest row index.
\<close>

definition empty_cell :: "board \<Rightarrow> nat \<Rightarrow> nat \<Rightarrow> bool" where
  "empty_cell b r c \<longleftrightarrow> b r c Mover = 0 \<and> b r c Opponent = 0"

definition lowest_empty :: "board \<Rightarrow> nat \<Rightarrow> nat \<Rightarrow> bool" where
  "lowest_empty b col row \<longleftrightarrow>
     row < 6 \<and> empty_cell b row col \<and> (\<forall>r. row < r \<and> r < 6 \<longrightarrow> \<not> empty_cell b r col)"

subsection \<open>Threats and the priority policy\<close>

text \<open>
  A column completes four for a channel when a piece of the channel on the column's
  landing cell is aligned with three more. A column creates a double threat when, on the
  board after a piece of the channel has landed in it, at least two of the seven columns
  complete four for the channel. The policy takes the first legal column that wins, else
  the first that blocks, else the first that creates a double threat of the mover, else
  of the opponent, else the first legal column of the preference order.
\<close>

definition completes_four :: "board \<Rightarrow> nat \<Rightarrow> channel \<Rightarrow> bool" where
  "completes_four b col ch \<longleftrightarrow>
     (\<exists>row. lowest_empty b col row \<and> aligned_four (set_cell b row col ch 1) row col ch)"

definition double_threat :: "board \<Rightarrow> nat \<Rightarrow> channel \<Rightarrow> bool" where
  "double_threat b col ch \<longleftrightarrow>
     (\<exists>row. lowest_empty b col row \<and>
        2 \<le> card {c. c < 7 \<and> completes_four (set_cell b row col ch 1) c ch})"

definition priority_policy :: "board \<Rightarrow> nat list \<Rightarrow> nat option" where
  "priority_policy b legal =
     (case find (\<lambda>c. completes_four b c Mover) legal of
        Some c \<Rightarrow> Some c
      | None \<Rightarrow>
     (case find (\<lambda>c. completes_four b c Opponent) legal of
        Some c \<Rightarrow> Some c
      | None \<Rightarrow>
     (case find (\<lambda>c. double_threat b c Mover) legal of
        Some c \<Rightarrow> Some c
      | None \<Rightarrow>
     (case find (\<lambda>c. double_threat b c Opponent) legal of
        Some c \<Rightarrow> Some c
      | None \<Rightarrow> find (\<lambda>c. c \<in> set legal) [3, 2, 4, 1, 5, 0, 6]))))"

subsection \<open>Boards given by their pieces\<close>

text \<open>
  The board with the mover's pieces on the cells \<open>ms\<close> and the opponent's on \<open>os\<close>, as
  the tests build it from \<^verbatim>\<open>np.zeros((6, 7, 2))\<close>.
\<close>

definition pieces_board :: "(nat \<times> nat) list \<Rightarrow> (nat \<times> nat) list \<Rightarrow> board" where
  "pieces_board ms os =
     (\<lambda>r c k. if (r, c) \<in> set (case k of Mover \<Rightarrow> ms | Opponent \<Rightarrow> os) then 1 else 0)"

definition bottom_three :: board where
  "bottom_three = pieces_board [(5, 0), (5, 1), (5, 2)] []"

subsection \<open>The inputs of a decision\<close>

text \<open>
  The board and the action mask that \<open>choose_action\<close> works with: the keyword argument
  \<open>action_mask\<close> when it is given, else the mask of the dictionary.
\<close>

fun board_of :: "observation \<Rightarrow> board" where
  "board_of (Dict b m) = b"
| "board_of (Direct b) = b"

fun mask_of :: "observation \<Rightarrow> int list option \<Rightarrow> int list option" where
  "mask_of (Dict b m) None = Some m"
| "mask_of (Dict b m) (Some a) = Some a"
| "mask_of (Direct b) a = a"

subsection \<open>Pieces on the board\<close>

text \<open>
  The pieces of a channel are the cells of the grid whose layer for the channel holds 1.
\<close>

definition pieces :: "board \<Rightarrow> channel \<Rightarrow> (nat \<times> nat) set" where
  "pieces b ch = {(r, c). r < 6 \<and> c < 7 \<and> b r c ch = 1}"

subsection \<open>Three aligned pieces and their extension cell\<close>

text \<open>
  The cell \<open>(row, col)\<close> is an open extension cell of three aligned pieces of the channel:
  it lies on the grid, it is empty, and the three cells that follow it along one of the
  four axes, in one of the two senses, hold pieces of the channel.
\<close>

definition extends_three :: "board \<Rightarrow> channel \<Rightarrow> nat \<Rightarrow> nat \<Rightarrow> bool" where
  "extends_three b ch row col \<longleftrightarrow>
     row < 6 \<and> col < 7 \<and> empty_cell b row col \<and>
     (\<exists>(dr, dc)\<in>set [(0, 1), (0, -1), (1, 0), (-1, 0), (-1, 1), (1, -1), (1, 1), (-1, -1)].
        \<forall>k\<in>{1, 2, 3}. occupied b ch (int row + int k * dr) (int col + int k * dc))"

subsection \<open>Example boards\<close>

text \<open>
  Boards of the tests and of the scenarios below: both sides one move from four; two
  mover pieces side by side on the bottom row; a full first column; a single piece;
  three mover pieces in column 6 beside a bottom row with a gap; three mover pieces on
  row 4 whose extension cell has nothing under it.
\<close>

definition both_win :: board where
  "both_win = pieces_board [(5, 0), (5, 1), (5, 2)] [(5, 6), (4, 6), (3, 6)]"

definition two_bottom :: board where
  "two_bottom = pieces_board [(5, 2), (5, 3)] []"

definition full_column :: board where
  "full_column = pieces_board [(5, 0), (4, 0), (3, 0)] [(2, 0), (1, 0), (0, 0)]"

definition one_piece :: board where
  "one_piece = pieces_board [(5, 0)] []"

definition gap_board :: board where
  "gap_board = pieces_board [(5, 0), (5, 1), (5, 3), (5, 6), (4, 6), (3, 6)]
                            [(4, 0), (4, 1), (4, 3), (5, 4), (5, 5), (4, 4)]"

definition floating_board :: board where
  "floating_board = pieces_board [(4, 0), (4, 1), (4, 2)] [(5, 0), (5, 1), (5, 2)]"

section \<open>The agent on a store of arrays\<close>

type_synonym ref = nat

text \<open>
  The caller's board and the copies are arrays of a store: a reference is an address,
  \<^verbatim>\<open>observation.copy()\<close> allocates the next free address with the contents of the array
  it copies, and \<^verbatim>\<open>board_copy[row, col, channel] = 1\<close> updates the array at the address
  of \<open>board_copy\<close> in place.
\<close>

record store =
  arrays :: "ref \<Rightarrow> board"
  next_ref :: ref

definition np_copy :: "ref \<Rightarrow> store \<Rightarrow> ref \<times> store" where
  "np_copy a s =
     (next_ref s, s\<lparr>arrays := (arrays s)(next_ref s := arrays s a), next_ref := Suc (next_ref s)\<rparr>)"

definition np_setitem :: "ref \<Rightarrow> nat \<Rightarrow> nat \<Rightarrow> channel \<Rightarrow> int \<Rightarrow> store \<Rightarrow> store" where
  "np_setitem a row col ch v s = s\<lparr>arrays := (arrays s)(a := set_cell (arrays s a) row col ch v)\<rparr>"

text \<open>
  The functions of the agent that copy and assign, with the board passed by reference
  and the store threaded through. \<open>_get_next_row\<close> and \<open>_check_win_from_position\<close> only
  read the array they are given.
\<close>

fun find_winning_move_st ::
  "ref \<Rightarrow> nat list \<Rightarrow> channel \<Rightarrow> store \<Rightarrow> (error + nat option) option \<times> store" where
  "find_winning_move_st observation [] channel s = (Some (Inr None), s)"
| "find_winning_move_st observation (col # rest) channel s =
     (case get_next_row (arrays s observation) col of
        Inl e \<Rightarrow> (Some (Inl e), s)
      | Inr None \<Rightarrow> find_winning_move_st observation rest channel s
      | Inr (Some row) \<Rightarrow>
          (case np_copy observation s of
             (board_copy, s1) \<Rightarrow>
               (let s2 = np_setitem board_copy row col channel 1 s1
                in case check_win_from_position (arrays s2 board_copy) row col channel of
                     None \<Rightarrow> (None, s2)
                   | Some True \<Rightarrow> (Some (Inr (Some col)), s2)
                   | Some False \<Rightarrow> find_winning_move_st observation rest channel s2)))"

fun double_threat_loop_st ::
  "ref \<Rightarrow> channel \<Rightarrow> nat list \<Rightarrow> nat \<Rightarrow> store \<Rightarrow> (error + bool) option \<times> store" where
  "double_threat_loop_st board_copy channel [] winning_moves s = (Some (Inr False), s)"
| "double_threat_loop_st board_copy channel (next_col # rest) winning_moves s =
     (case get_next_row (arrays s board_copy) next_col of
        Inl e \<Rightarrow> (Some (Inl e), s)
      | Inr None \<Rightarrow> double_threat_loop_st board_copy channel rest winning_moves s
      | Inr (Some next_row) \<Rightarrow>
          (case np_copy board_copy s of
             (board_copy2, s1) \<Rightarrow>
               (let s2 = np_setitem board_copy2 next_row next_col channel 1 s1
                in case check_win_from_position (arrays s2 board_copy2) next_row next_col channel of
                     None \<Rightarrow> (None, s2)
                   | Some won \<Rightarrow>
                       (let winning_moves' = (if won then winning_moves + 1 else winning_moves)
                        in if 2 \<le> winning_moves' then (Some (Inr True), s2)
                           else double_threat_loop_st board_copy channel rest winning_moves' s2))))"

definition creates_double_threat_st ::
  "ref \<Rightarrow> nat \<Rightarrow> channel \<Rightarrow> store \<Rightarrow> (error + bool) option \<times> store" where
  "creates_double_threat_st board col channel s =
     (case get_next_row (arrays s board) col of
        Inl e \<Rightarrow> (Some (Inl e), s)
      | Inr None \<Rightarrow> (Some (Inr False), s)
      | Inr (Some row) \<Rightarrow>
          (case np_copy board s of
             (board_copy, s1) \<Rightarrow>
               double_threat_loop_st board_copy channel [0..<7] 0
                 (np_setitem board_copy row col channel 1 s1)))"

fun double_threat_move_st ::
  "ref \<Rightarrow> nat list \<Rightarrow> channel \<Rightarrow> store \<Rightarrow> (error + nat option) option \<times> store" where
  "double_threat_move_st board [] channel s = (Some (Inr None), s)"
| "double_threat_move_st board (col # rest) channel s =
     (case creates_double_threat_st board col channel s of
        (None, s') \<Rightarrow> (None, s')
      | (Some (Inl e), s') \<Rightarrow> (Some (Inl e), s')
      | (Some (Inr True), s') \<Rightarrow> (Some (Inr (Some col)), s')
      | (Some (Inr False), s') \<Rightarrow> double_threat_move_st board rest channel s')"

definition select_column_st ::
  "ref \<Rightarrow> nat list \<Rightarrow> nat \<Rightarrow> store \<Rightarrow> (error + nat) option \<times> store" where
  "select_column_st board valid_actions rnd s =
     (case find_winning_move_st board valid_actions Mover s of
        (None, s1) \<Rightarrow> (None, s1)
      | (Some (Inl e), s1) \<Rightarrow> (Some (Inl e), s1)
      | (Some (Inr (Some winning_move)), s1) \<Rightarrow> (Some (Inr winning_move), s1)
      | (Some (Inr None), s1) \<Rightarrow>
     (case find_winning_move_st board valid_actions Opponent s1 of
        (None, s2) \<Rightarrow> (None, s2)
      | (Some (Inl e), s2) \<Rightarrow> (Some (Inl e), s2)
      | (Some (Inr (Some blocking_move)), s2) \<Rightarrow> (Some (Inr blocking_move), s2)
      | (Some (Inr None), s2) \<Rightarrow>
     (case double_threat_move_st board valid_actions Mover s2 of
        (None, s3) \<Rightarrow> (None, s3)
      | (Some (Inl e), s3) \<Rightarrow> (Some (Inl e), s3)
      | (Some (Inr (Some col)), s3) \<Rightarrow> (Some (Inr col), s3)
      | (Some (Inr None), s3) \<Rightarrow>
     (case double_threat_move_st board valid_actions Opponent s3 of
        (None, s4) \<Rightarrow> (None, s4)
      | (Some (Inl e), s4) \<Rightarrow> (Some (Inl e), s4)
      | (Some (Inr (Some col)), s4) \<Rightarrow> (Some (Inr col), s4)
      | (Some (Inr None), s4) \<Rightarrow>
     (case find (\<lambda>col. col \<in> set valid_actions) center_preference of
        Some col \<Rightarrow> (Some (Inr col), s4)
      | None \<Rightarrow> (Some (random_choice rnd valid_actions), s4))))))"

datatype observation_ref = Dict_ref ref "int list" | Direct_ref ref

definition choose_action_st ::
  "observation_ref \<Rightarrow> int list option \<Rightarrow> nat \<Rightarrow> store \<Rightarrow> (error + nat) option \<times> store" where
  "choose_action_st observation action_mask rnd s =
     (case observation of
        Dict_ref board dict_mask \<Rightarrow>
          select_column_st board
            (get_valid_actions (case action_mask of None \<Rightarrow> dict_mask | Some m \<Rightarrow> m)) rnd s
      | Direct_ref board \<Rightarrow>
          (case action_mask of
             None \<Rightarrow> (Some (Inl TypeError), s)
           | Some m \<Rightarrow> select_column_st board (get_valid_actions m) rnd s))"

text \<open>
  A call frames the store when every array allocated before it is unchanged after it.
\<close>

definition frame :: "store \<Rightarrow> store \<Rightarrow> bool" where
  "frame s s' \<longleftrightarrow> next_ref s \<le> next_ref s' \<and> (\<forall>a<next_ref s. arrays s' a = arrays s a)"

fun board_ref :: "observation_ref \<Rightarrow> ref" where
  "board_ref (Dict_ref a m) = a"
| "board_ref (Direct_ref a) = a"

fun deref :: "store \<Rightarrow> observation_ref \<Rightarrow> observation" where
  "deref s (Dict_ref a m) = Dict (arrays s a) m"
| "deref s (Direct_ref a) = Direct (arrays s a)"

definition caller_store :: store where
  "caller_store = \<lparr>arrays = (\<lambda>a. if a = 0 then bottom_three else pieces_board [] []), next_ref = 1\<rparr>"

section \<open>The loops of the alignment detector\<close>

text \<open>
  With a step other than \<open>(0, 0)\<close> each loop leaves the grid after at most seven
  iterations; the measure is the distance to the border the step moves towards.
\<close>

definition steps_left :: "int \<Rightarrow> int \<Rightarrow> int \<Rightarrow> int \<Rightarrow> nat" where
  "steps_left dr dc r c =
     nat (if 0 < dc then 7 - c else if dc < 0 then c + 1 else if 0 < dr then 6 - r else r + 1)"

lemma steps_left_decreases:
  assumes "(dr, dc) \<noteq> (0, 0)" and "occupied b ch r c"
  shows "steps_left dr dc (r + dr) (c + dc) < steps_left dr dc r c"
  using assms by (auto simp: steps_left_def occupied_def)

lemma count_positive_unfold:
  "count_positive b ch dr dc r c cnt =
     (if occupied b ch r c then count_positive b ch dr dc (r + dr) (c + dc) (cnt + 1)
      else Some cnt)"
  by (subst count_positive.simps) (simp add: occupied_def)

lemma count_positive_run:
  assumes nz: "(dr, dc) \<noteq> (0, 0)"
  shows "\<exists>n. count_positive b ch dr dc r c cnt = Some (cnt + n) \<and>
             (\<forall>k<n. occupied b ch (r + int k * dr) (c + int k * dc)) \<and>
             \<not> occupied b ch (r + int n * dr) (c + int n * dc)"
proof (induction "steps_left dr dc r c" arbitrary: r c cnt rule: less_induct)
  case less
  show ?case
  proof (cases "occupied b ch r c")
    case False
    then have "count_positive b ch dr dc r c cnt = Some cnt"
      by (simp add: count_positive_unfold)
    with False show ?thesis
      by (intro exI [of _ 0]) simp
  next
    case True
    from less [OF steps_left_decreases [OF nz True], of "cnt + 1"]
    obtain m where m: "count_positive b ch dr dc (r + dr) (c + dc) (cnt + 1) = Some (cnt + 1 + m)"
      "\<forall>k<m. occupied b ch (r + dr + int k * dr) (c + dc + int k * dc)"
      "\<not> occupied b ch (r + dr + int m * dr) (c + dc + int m * dc)"
      by blast
    from True have "count_positive b ch dr dc r c cnt =
        count_positive b ch dr dc (r + dr) (c + dc) (cnt + 1)"
      by (subst count_positive_unfold) simp
    with m(1) have res: "count_positive b ch dr dc r c cnt = Some (cnt + Suc m)"
      by simp
    have all: "occupied b ch (r + int k * dr) (c + int k * dc)" if "k < Suc m" for k
    proof (cases k)
      case 0
      with True show ?thesis by simp
    next
      case (Suc j)
      with that m(2) have "occupied b ch (r + dr + int j * dr) (c + dc + int j * dc)"
        by simp
      with Suc show ?thesis by (simp add: algebra_simps)
    qed
    from m(3) have stop: "\<not> occupied b ch (r + int (Suc m) * dr) (c + int (Suc m) * dc)"
      by (simp add: algebra_simps)
    from res all stop show ?thesis by blast
  qed
qed

lemma count_negative_unfold:
  "count_negative b ch dr dc r c cnt =
     (if occupied b ch r c then count_negative b ch dr dc (r - dr) (c - dc) (cnt + 1)
      else Some cnt)"
  by (subst count_negative.simps) (simp add: occupied_def)

lemma count_negative_run:
  assumes nz: "(dr, dc) \<noteq> (0, 0)"
  shows "\<exists>n. count_negative b ch dr dc r c cnt = Some (cnt + n) \<and>
             (\<forall>k<n. occupied b ch (r - int k * dr) (c - int k * dc)) \<and>
             \<not> occupied b ch (r - int n * dr) (c - int n * dc)"
proof (induction "steps_left (- dr) (- dc) r c" arbitrary: r c cnt rule: less_induct)
  case less
  show ?case
  proof (cases "occupied b ch r c")
    case False
    then have "count_negative b ch dr dc r c cnt = Some cnt"
      by (simp add: count_negative_unfold)
    with False show ?thesis
      by (intro exI [of _ 0]) simp
  next
    case True
    from nz have nz': "(- dr, - dc) \<noteq> (0, 0)" by simp
    from steps_left_decreases [OF nz' True]
    have "steps_left (- dr) (- dc) (r - dr) (c - dc) < steps_left (- dr) (- dc) r c"
      by simp
    from less [OF this, of "cnt + 1"]
    obtain m where m: "count_negative b ch dr dc (r - dr) (c - dc) (cnt + 1) = Some (cnt + 1 + m)"
      "\<forall>k<m. occupied b ch (r - dr - int k * dr) (c - dc - int k * dc)"
      "\<not> occupied b ch (r - dr - int m * dr) (c - dc - int m * dc)"
      by blast
    from True have "count_negative b ch dr dc r c cnt =
        count_negative b ch dr dc (r - dr) (c - dc) (cnt + 1)"
      by (subst count_negative_unfold) simp
    with m(1) have res: "count_negative b ch dr dc r c cnt = Some (cnt + Suc m)"
      by simp
    have all: "occupied b ch (r - int k * dr) (c - int k * dc)" if "k < Suc m" for k
    proof (cases k)
      case 0
      with True show ?thesis by simp
    next
      case (Suc j)
      with that m(2) have "occupied b ch (r - dr - int j * dr) (c - dc - int j * dc)"
        by simp
      with Suc show ?thesis by (simp add: algebra_simps)
    qed
    from m(3) have stop: "\<not> occupied b ch (r - int (Suc m) * dr) (c - int (Suc m) * dc)"
      by (simp add: algebra_simps)
    from res all stop show ?thesis by blast
  qed
qed

lemma run_of_unique:
  assumes "run_of b ch row col dr dc p" and "run_of b ch row col dr dc q"
  shows "p = q"
proof (rule ccontr)
  assume "p \<noteq> q"
  then consider "p < q" | "q < p" by linarith
  then show False
  proof cases
    case 1
    then have "p + 1 \<in> {1..q}" by simp
    with assms show False unfolding run_of_def by blast
  next
    case 2
    then have "q + 1 \<in> {1..p}" by simp
    with assms show False unfolding run_of_def by blast
  qed
qed

lemma positive_loop_run_of:
  assumes "(dr, dc) \<noteq> (0, 0)"
  shows "\<exists>p. count_positive b ch dr dc (int row + dr) (int col + dc) cnt = Some (cnt + p) \<and>
             run_of b ch row col dr dc p"
proof -
  from count_positive_run [OF assms, of b ch "int row + dr" "int col + dc" cnt]
  obtain p where p: "count_positive b ch dr dc (int row + dr) (int col + dc) cnt = Some (cnt + p)"
    "\<forall>k<p. occupied b ch (int row + dr + int k * dr) (int col + dc + int k * dc)"
    "\<not> occupied b ch (int row + dr + int p * dr) (int col + dc + int p * dc)"
    by blast
  have "occupied b ch (int row + int k * dr) (int col + int k * dc)" if "k \<in> {1..p}" for k
  proof -
    from that obtain j where j: "k = Suc j" "j < p" by (cases k) auto
    with p(2) show ?thesis by (simp add: algebra_simps)
  qed
  moreover from p(3)
  have "\<not> occupied b ch (int row + int (p + 1) * dr) (int col + int (p + 1) * dc)"
    by (simp add: algebra_simps)
  ultimately have "run_of b ch row col dr dc p" by (simp add: run_of_def)
  with p(1) show ?thesis by blast
qed

lemma negative_loop_run_of:
  assumes "(dr, dc) \<noteq> (0, 0)"
  shows "\<exists>n. count_negative b ch dr dc (int row - dr) (int col - dc) cnt = Some (cnt + n) \<and>
             run_of b ch row col (- dr) (- dc) n"
proof -
  from count_negative_run [OF assms, of b ch "int row - dr" "int col - dc" cnt]
  obtain n where n: "count_negative b ch dr dc (int row - dr) (int col - dc) cnt = Some (cnt + n)"
    "\<forall>k<n. occupied b ch (int row - dr - int k * dr) (int col - dc - int k * dc)"
    "\<not> occupied b ch (int row - dr - int n * dr) (int col - dc - int n * dc)"
    by blast
  have "occupied b ch (int row + int k * (- dr)) (int col + int k * (- dc))" if "k \<in> {1..n}" for k
  proof -
    from that obtain j where j: "k = Suc j" "j < n" by (cases k) auto
    with n(2) show ?thesis by (simp add: algebra_simps)
  qed
  moreover from n(3)
  have "\<not> occupied b ch (int row + int (n + 1) * (- dr)) (int col + int (n + 1) * (- dc))"
    by (simp add: algebra_simps)
  ultimately have "run_of b ch row col (- dr) (- dc) n" by (simp add: run_of_def)
  with n(1) show ?thesis by blast
qed

lemma axis_four_eq:
  assumes "run_of b ch row col dr dc p" and "run_of b ch row col (- dr) (- dc) n"
  shows "axis_four b ch row col (dr, dc) \<longleftrightarrow> 4 \<le> 1 + p + n"
proof
  assume "axis_four b ch row col (dr, dc)"
  then obtain p' n' where *: "run_of b ch row col dr dc p'"
    "run_of b ch row col (- dr) (- dc) n'" "4 \<le> 1 + p' + n'"
    by auto
  from run_of_unique [OF assms(1) *(1)] run_of_unique [OF assms(2) *(2)] *(3)
  show "4 \<le> 1 + p + n" by simp
next
  assume "4 \<le> 1 + p + n"
  with assms show "axis_four b ch row col (dr, dc)" by auto
qed

lemma check_directions_total:
  assumes "\<forall>d\<in>set ds. d \<noteq> (0, 0)"
  shows "check_directions b row col ch ds = Some (\<exists>d\<in>set ds. axis_four b ch row col d)"
  using assms
proof (induction ds)
  case Nil
  show ?case by simp
next
  case (Cons d ds)
  obtain dr dc where d: "d = (dr, dc)" by (cases d)
  with Cons.prems have nz: "(dr, dc) \<noteq> (0, 0)" by simp
  from positive_loop_run_of [OF nz, of b ch row col 1]
  obtain p where p: "count_positive b ch dr dc (int row + dr) (int col + dc) 1 = Some (1 + p)"
    "run_of b ch row col dr dc p" by blast
  from negative_loop_run_of [OF nz, of b ch row col "1 + p"]
  obtain n where n: "count_negative b ch dr dc (int row - dr) (int col - dc) (1 + p) = Some (1 + p + n)"
    "run_of b ch row col (- dr) (- dc) n" by blast
  note tot = axis_four_eq [OF p(2) n(2)]
  from Cons have IH: "check_directions b row col ch ds =
           Some (\<exists>d\<in>set ds. axis_four b ch row col d)" by simp
  show ?case
  proof (cases "4 \<le> 1 + p + n")
    case True
    with tot have "axis_four b ch row col (dr, dc)" by blast
    with True p(1) n(1) show ?thesis by (simp add: d del: axis_four.simps)
  next
    case False
    with tot have "\<not> axis_four b ch row col (dr, dc)" by blast
    with False p(1) n(1) IH show ?thesis by (simp add: d del: axis_four.simps)
  qed
qed

lemma check_win_total:
  "check_win_from_position b row col ch = Some (aligned_four b row col ch)"
proof -
  have "\<forall>d\<in>set directions. d \<noteq> (0, 0)" by (simp add: directions_def)
  from check_directions_total [OF this]
  show ?thesis
    unfolding check_win_from_position_def aligned_four_def directions_def [symmetric] by simp
qed

section \<open>The landing row\<close>

lemma rev_upt_Suc: "rev [0..<Suc n] = n # rev [0..<n]"
  by simp

lemma next_row_loop_None:
  "next_row_loop b col (rev [0..<n]) = None \<longleftrightarrow> (\<forall>r<n. \<not> empty_cell b r col)"
proof (induction n)
  case 0
  show ?case by simp
next
  case (Suc n)
  have "(\<forall>r<Suc n. \<not> empty_cell b r col) \<longleftrightarrow>
        \<not> empty_cell b n col \<and> (\<forall>r<n. \<not> empty_cell b r col)"
    by (auto simp: less_Suc_eq)
  with Suc show ?case
    by (simp only: rev_upt_Suc next_row_loop.simps empty_cell_def split: if_split) simp
qed

lemma next_row_loop_Some:
  "next_row_loop b col (rev [0..<n]) = Some row \<longleftrightarrow>
     row < n \<and> empty_cell b row col \<and> (\<forall>r. row < r \<and> r < n \<longrightarrow> \<not> empty_cell b r col)"
proof (induction n)
  case 0
  show ?case by simp
next
  case (Suc n)
  show ?case
  proof (cases "empty_cell b n col")
    case True
    then have run: "next_row_loop b col (rev [0..<Suc n]) = Some n"
      by (simp only: rev_upt_Suc next_row_loop.simps empty_cell_def) simp
    have "(row < Suc n \<and> empty_cell b row col \<and>
        (\<forall>r. row < r \<and> r < Suc n \<longrightarrow> \<not> empty_cell b r col)) \<longleftrightarrow> row = n"
    proof
      assume a: "row < Suc n \<and> empty_cell b row col \<and>
        (\<forall>r. row < r \<and> r < Suc n \<longrightarrow> \<not> empty_cell b r col)"
      show "row = n"
      proof (rule ccontr)
        assume "row \<noteq> n"
        with a have "row < n" by simp
        with a True show False by blast
      qed
    next
      assume "row = n"
      with True show "row < Suc n \<and> empty_cell b row col \<and>
        (\<forall>r. row < r \<and> r < Suc n \<longrightarrow> \<not> empty_cell b r col)" by auto
    qed
    with run show ?thesis by (simp only: option.inject) blast
  next
    case False
    then have run: "next_row_loop b col (rev [0..<Suc n]) = next_row_loop b col (rev [0..<n])"
      by (simp only: rev_upt_Suc next_row_loop.simps empty_cell_def) simp
    have "(row < Suc n \<and> empty_cell b row col \<and>
        (\<forall>r. row < r \<and> r < Suc n \<longrightarrow> \<not> empty_cell b r col)) \<longleftrightarrow>
      (row < n \<and> empty_cell b row col \<and> (\<forall>r. row < r \<and> r < n \<longrightarrow> \<not> empty_cell b r col))"
      using False by (auto simp: less_Suc_eq)
    with run Suc show ?thesis by (simp only:)
  qed
qed

lemma get_next_row_Some:
  "get_next_row b col = Inr (Some row) \<longleftrightarrow> col < 7 \<and> lowest_empty b col row"
proof (cases "7 \<le> col")
  case True
  then show ?thesis by (simp add: get_next_row_def)
next
  case False
  then have "get_next_row b col = Inr (next_row_loop b col (rev [0..<6]))"
    by (simp only: get_next_row_def if_False)
  with False show ?thesis
    by (simp only: sum.inject next_row_loop_Some lowest_empty_def) simp
qed

lemma get_next_row_None:
  "get_next_row b col = Inr None \<longleftrightarrow> col < 7 \<and> (\<forall>r<6. \<not> empty_cell b r col)"
proof (cases "7 \<le> col")
  case True
  then show ?thesis by (simp add: get_next_row_def)
next
  case False
  then have "get_next_row b col = Inr (next_row_loop b col (rev [0..<6]))"
    by (simp only: get_next_row_def if_False)
  with False show ?thesis
    by (simp only: sum.inject next_row_loop_None) simp
qed

lemma get_next_row_Inl:
  "get_next_row b col = Inl e \<longleftrightarrow> 7 \<le> col \<and> e = IndexError"
  by (cases "7 \<le> col") (auto simp only: get_next_row_def if_True if_False sum.inject sum.distinct)

lemma get_next_row_cases:
  assumes "col < 7"
  obtains (full) "get_next_row b col = Inr None" "\<forall>r<6. \<not> empty_cell b r col"
  | (lands) row where "get_next_row b col = Inr (Some row)" "lowest_empty b col row"
proof (cases "get_next_row b col")
  case (Inl e)
  with assms show ?thesis by (simp add: get_next_row_Inl)
next
  case (Inr v)
  show ?thesis
  proof (cases v)
    case None
    with Inr have *: "get_next_row b col = Inr None" by simp
    then have "\<forall>r<6. \<not> empty_cell b r col" by (simp add: get_next_row_None)
    with * show ?thesis by (rule full)
  next
    case (Some row)
    with Inr have *: "get_next_row b col = Inr (Some row)" by simp
    then have "lowest_empty b col row" by (simp add: get_next_row_Some)
    with * show ?thesis by (rule lands)
  qed
qed

section \<open>Winning moves and double threats\<close>

lemma lowest_empty_unique:
  assumes "lowest_empty b col r1" and "lowest_empty b col r2"
  shows "r1 = r2"
proof (rule ccontr)
  assume "r1 \<noteq> r2"
  then consider "r1 < r2" | "r2 < r1" by linarith
  then show False
    using assms unfolding lowest_empty_def by cases blast+
qed

lemma completes_four_lands:
  assumes "lowest_empty b col row"
  shows "completes_four b col ch \<longleftrightarrow> aligned_four (set_cell b row col ch 1) row col ch"
  unfolding completes_four_def using assms lowest_empty_unique by blast

lemma completes_four_full:
  assumes "\<forall>r<6. \<not> empty_cell b r col"
  shows "\<not> completes_four b col ch"
  unfolding completes_four_def lowest_empty_def using assms by blast

lemma find_winning_move_find:
  assumes "\<forall>c\<in>set valid. c < 7"
  shows "find_winning_move b valid ch = Some (Inr (find (\<lambda>c. completes_four b c ch) valid))"
  using assms
proof (induction valid)
  case Nil
  show ?case by simp
next
  case (Cons col rest)
  then have col: "col < 7" and IH: "find_winning_move b rest ch =
      Some (Inr (find (\<lambda>c. completes_four b c ch) rest))"
    by simp_all
  from col show ?case
  proof (cases rule: get_next_row_cases [where b = b and col = col])
    case full
    from completes_four_full [OF full(2)] full(1) IH show ?thesis by simp
  next
    case (lands row)
    from completes_four_lands [OF lands(2)] lands(1) IH show ?thesis
      by (simp add: check_win_total)
  qed
qed

lemma double_threat_loop_count:
  assumes "\<forall>c\<in>set cs. c < 7" and "wm < 2"
  shows "double_threat_loop bc ch cs wm =
           Some (Inr (2 \<le> wm + length (filter (\<lambda>c. completes_four bc c ch) cs)))"
  using assms
proof (induction cs arbitrary: wm)
  case Nil
  then show ?case by simp
next
  case (Cons col rest)
  then have col: "col < 7" and rest: "\<forall>c\<in>set rest. c < 7" by simp_all
  note IH = Cons.IH [OF rest]
  from col show ?case
  proof (cases rule: get_next_row_cases [where b = bc and col = col])
    case full
    from completes_four_full [OF full(2)] full(1) IH [OF Cons.prems(2)] show ?thesis by simp
  next
    case (lands row)
    note cf = completes_four_lands [OF lands(2), of ch]
    show ?thesis
    proof (cases "completes_four bc col ch")
      case False
      with cf lands(1) IH [OF Cons.prems(2)] show ?thesis
        by (simp add: check_win_total)
    next
      case True
      show ?thesis
      proof (cases "wm = 0")
        case True
        then have "Suc wm < 2" by simp
        from IH [OF this] \<open>completes_four bc col ch\<close> cf lands(1) True show ?thesis
          by (simp add: check_win_total)
      next
        case False
        with Cons.prems(2) have "wm = 1" by simp
        with \<open>completes_four bc col ch\<close> cf lands(1) show ?thesis
          by (simp add: check_win_total)
      qed
    qed
  qed
qed

lemma count_columns: "length (filter P [0..<7]) = card {c. c < 7 \<and> P c}"
proof -
  have "length (filter P [0..<7]) = card ({c. P c} \<inter> set [0..<7])"
    by (rule distinct_length_filter) simp
  also have "{c. P c} \<inter> set [0..<7] = {c. c < 7 \<and> P c}"
    by auto
  finally show ?thesis .
qed

lemma creates_double_threat_eq:
  assumes "col < 7"
  shows "creates_double_threat b col ch = Some (Inr (double_threat b col ch))"
  using assms
proof (cases rule: get_next_row_cases [where b = b and col = col])
  case full
  then have "\<not> double_threat b col ch"
    unfolding double_threat_def lowest_empty_def by blast
  with full(1) show ?thesis by (simp add: creates_double_threat_def)
next
  case (lands row)
  have "double_threat b col ch \<longleftrightarrow>
      2 \<le> card {c. c < 7 \<and> completes_four (set_cell b row col ch 1) c ch}"
    unfolding double_threat_def using lands(2) lowest_empty_unique by blast
  moreover have "double_threat_loop (set_cell b row col ch 1) ch [0..<7] 0 =
      Some (Inr (2 \<le> 0 + length (filter (\<lambda>c. completes_four (set_cell b row col ch 1) c ch) [0..<7])))"
    by (rule double_threat_loop_count) simp_all
  ultimately show ?thesis
    using lands(1) by (simp only: creates_double_threat_def count_columns) simp
qed

lemma double_threat_move_find:
  assumes "\<forall>c\<in>set valid. c < 7"
  shows "double_threat_move b valid ch = Some (Inr (find (\<lambda>c. double_threat b c ch) valid))"
  using assms
  by (induction valid) (simp_all add: creates_double_threat_eq)

section \<open>Cells the alignment detector reads\<close>

lemma occupied_cong:
  assumes "\<forall>r c k. (r, c) \<noteq> (row, col) \<longrightarrow> b1 r c k = b2 r c k"
    and "(r, c) \<noteq> (int row, int col)"
  shows "occupied b1 ch r c = occupied b2 ch r c"
proof (cases "0 \<le> r \<and> 0 \<le> c")
  case True
  with assms(2) have "(nat r, nat c) \<noteq> (row, col)" by auto
  with assms(1) have "b1 (nat r) (nat c) ch = b2 (nat r) (nat c) ch" by blast
  then show ?thesis by (simp add: occupied_def)
next
  case False
  then show ?thesis by (auto simp: occupied_def)
qed

lemma off_origin:
  assumes "(dr, dc) \<noteq> (0, 0)" and "0 < k"
  shows "(int row + int k * dr, int col + int k * dc) \<noteq> (int row, int col)"
  using assms by auto

lemma run_of_cong:
  assumes same: "\<forall>r c k. (r, c) \<noteq> (row, col) \<longrightarrow> b1 r c k = b2 r c k"
    and nz: "(dr, dc) \<noteq> (0, 0)"
  shows "run_of b1 ch row col dr dc n = run_of b2 ch row col dr dc n"
proof -
  have *: "occupied b1 ch (int row + int k * dr) (int col + int k * dc) =
        occupied b2 ch (int row + int k * dr) (int col + int k * dc)" if "0 < k" for k
    by (rule occupied_cong [OF same off_origin [OF nz that]])
  have last: "occupied b1 ch (int row + int (n + 1) * dr) (int col + int (n + 1) * dc) =
        occupied b2 ch (int row + int (n + 1) * dr) (int col + int (n + 1) * dc)"
    by (rule *) simp
  have "(\<forall>k\<in>{1..n}. occupied b1 ch (int row + int k * dr) (int col + int k * dc)) =
        (\<forall>k\<in>{1..n}. occupied b2 ch (int row + int k * dr) (int col + int k * dc))"
    using * by auto
  with last show ?thesis unfolding run_of_def by blast
qed

lemma aligned_four_cong:
  assumes same: "\<forall>r c k. (r, c) \<noteq> (row, col) \<longrightarrow> b1 r c k = b2 r c k"
  shows "aligned_four b1 row col ch = aligned_four b2 row col ch"
proof -
  have "axis_four b1 ch row col d = axis_four b2 ch row col d" if "d \<in> set directions" for d
  proof -
    obtain dr dc where d: "d = (dr, dc)" by (cases d)
    with that have "(dr, dc) \<noteq> (0, 0)" "(- dr, - dc) \<noteq> (0, 0)"
      by (auto simp: directions_def)
    from run_of_cong [OF same this(1)] run_of_cong [OF same this(2)]
    show ?thesis by (simp add: d)
  qed
  then show ?thesis
    unfolding aligned_four_def directions_def [symmetric] by blast
qed

section \<open>The move selector\<close>

lemma set_get_valid_actions:
  "set (get_valid_actions m) = {i. i < length m \<and> m ! i = 1}"
  by (auto simp: get_valid_actions_def)

lemma sorted_get_valid_actions: "sorted (get_valid_actions m)"
  by (simp add: get_valid_actions_def sorted_wrt_filter)

lemma valid_actions_in_grid:
  assumes "length m = 7"
  shows "\<forall>c\<in>set (get_valid_actions m). c < 7"
  using assms by (simp add: set_get_valid_actions)

lemma set_center_preference: "set center_preference = {c. c < 7}"
  by (auto simp: center_preference_def)

lemma preference_None:
  assumes "find (\<lambda>col. col \<in> set valid) center_preference = None" and "\<forall>c\<in>set valid. c < 7"
  shows "valid = []"
proof (cases valid)
  case Nil
  then show ?thesis .
next
  case (Cons c cs)
  with assms(2) have "c \<in> set center_preference" by (simp add: set_center_preference)
  with assms(1) Cons show ?thesis by (auto simp: find_None_iff)
qed

lemma select_column_policy:
  assumes "\<forall>c\<in>set valid. c < 7"
  shows "select_column b valid rnd =
           Some (case priority_policy b valid of Some c \<Rightarrow> Inr c | None \<Rightarrow> Inl IndexError)"
proof (cases "find (\<lambda>col. col \<in> set valid) center_preference")
  case None
  from preference_None [OF this assms] have "random_choice rnd valid = Inl IndexError"
    by (simp add: random_choice_def)
  with None show ?thesis
    unfolding select_column_def priority_policy_def center_preference_def [symmetric]
    by (simp add: find_winning_move_find [OF assms] double_threat_move_find [OF assms]
          split: option.splits)
next
  case (Some c)
  then show ?thesis
    unfolding select_column_def priority_policy_def center_preference_def [symmetric]
    by (simp add: find_winning_move_find [OF assms] double_threat_move_find [OF assms]
          split: option.splits)
qed

lemma choose_action_select:
  assumes "mask_of obs am = Some m"
  shows "choose_action obs am rnd = select_column (board_of obs) (get_valid_actions m) rnd"
  using assms by (cases obs; cases am) (simp_all add: choose_action_def)

lemma priority_policy_legal:
  assumes "priority_policy b valid = Some c"
  shows "c \<in> set valid"
  using assms unfolding priority_policy_def
  by (auto split: option.splits simp: find_Some_iff simp del: find.simps)

lemma priority_policy_Some:
  assumes "valid \<noteq> []" and "\<forall>c\<in>set valid. c < 7"
  shows "\<exists>c. priority_policy b valid = Some c"
proof -
  from preference_None [OF _ assms(2)] assms(1)
  obtain c where "find (\<lambda>col. col \<in> set valid) center_preference = Some c"
    by (cases "find (\<lambda>col. col \<in> set valid) center_preference") auto
  then show ?thesis
    unfolding priority_policy_def center_preference_def [symmetric]
    by (simp split: option.splits)
qed

lemma select_column_first_bad:
  assumes "7 \<le> c"
  shows "select_column b (c # cs) rnd = Some (Inl IndexError)"
  using assms by (simp add: select_column_def get_next_row_def)

lemma select_column_deterministic:
  "select_column b valid rnd = select_column b valid rnd'"
proof (cases "find (\<lambda>col. col \<in> set valid) center_preference")
  case (Some c)
  then show ?thesis
    by (simp add: select_column_def split: option.splits sum.splits)
next
  case None
  show ?thesis
  proof (cases valid)
    case Nil
    then show ?thesis by (simp add: select_column_def random_choice_def split: option.splits)
  next
    case (Cons c cs)
    with None have "c \<notin> set center_preference" by (auto simp: find_None_iff)
    then have "7 \<le> c" by (simp add: set_center_preference)
    then show ?thesis unfolding Cons by (simp only: select_column_first_bad)
  qed
qed

lemma completes_four_single:
  assumes "col < 7"
  shows "completes_four b col ch \<longleftrightarrow> find_winning_move b [col] ch = Some (Inr (Some col))"
proof -
  from assms have "\<forall>c\<in>set [col]. c < 7" by simp
  from find_winning_move_find [OF this, of b ch] show ?thesis by simp
qed

section \<open>Four in a row needs three more pieces\<close>

lemma finite_pieces: "finite (pieces b ch)"
proof (rule finite_subset)
  show "pieces b ch \<subseteq> {..<6} \<times> {..<7}" by (auto simp: pieces_def)
  show "finite ({..<6::nat} \<times> {..<7::nat})" by simp
qed

lemma pieces_set_cell: "pieces (set_cell b row col ch v) ch - {(row, col)} \<subseteq> pieces b ch"
  by (auto simp: pieces_def set_cell_def)

lemma nat_eq_nonneg: "nat x = nat y \<Longrightarrow> 0 \<le> x \<Longrightarrow> 0 \<le> y \<Longrightarrow> x = y"
  by simp

lemma line_cells:
  fixes dr dc :: int
  assumes nz: "(dr, dc) \<noteq> (0, 0)"
    and occ: "\<forall>j\<in>K. occupied b ch (int r0 + j * dr) (int c0 + j * dc)"
    and K: "0 \<notin> K" "finite K"
  shows "card K \<le> card (pieces b ch - {(r0, c0)})"
proof -
  let ?g = "\<lambda>j. (nat (int r0 + j * dr), nat (int c0 + j * dc))"
  have grid: "0 \<le> int r0 + j * dr \<and> int r0 + j * dr < 6 \<and>
      0 \<le> int c0 + j * dc \<and> int c0 + j * dc < 7 \<and>
      b (nat (int r0 + j * dr)) (nat (int c0 + j * dc)) ch = 1" if "j \<in> K" for j
    using occ that by (simp add: occupied_def)
  have inj: "inj_on ?g K"
  proof (rule inj_onI)
    fix i j
    assume i: "i \<in> K" and j: "j \<in> K" and eq: "?g i = ?g j"
    from eq have e1: "nat (int r0 + i * dr) = nat (int r0 + j * dr)"
      and e2: "nat (int c0 + i * dc) = nat (int c0 + j * dc)"
      by (simp_all only: prod.inject)
    have "int r0 + i * dr = int r0 + j * dr"
      by (rule nat_eq_nonneg [OF e1]) (use grid [OF i] grid [OF j] in blast)+
    moreover have "int c0 + i * dc = int c0 + j * dc"
      by (rule nat_eq_nonneg [OF e2]) (use grid [OF i] grid [OF j] in blast)+
    ultimately have "dr = 0 \<or> i = j" and "dc = 0 \<or> i = j"
      by simp_all
    with nz show "i = j" by auto
  qed
  have sub: "?g ` K \<subseteq> pieces b ch - {(r0, c0)}"
  proof
    fix x
    assume "x \<in> ?g ` K"
    then obtain j where j: "j \<in> K" and x: "x = ?g j" by blast
    from j K(1) have "j \<noteq> 0" by blast
    with nz have away: "j * dr \<noteq> 0 \<or> j * dc \<noteq> 0" by auto
    have "?g j \<noteq> (r0, c0)"
    proof
      assume "?g j = (r0, c0)"
      then have e1: "nat (int r0 + j * dr) = nat (int r0)"
        and e2: "nat (int c0 + j * dc) = nat (int c0)"
        by simp_all
      have "int r0 + j * dr = int r0"
        by (rule nat_eq_nonneg [OF e1]) (use grid [OF j] in simp_all)
      moreover have "int c0 + j * dc = int c0"
        by (rule nat_eq_nonneg [OF e2]) (use grid [OF j] in simp_all)
      ultimately show False using away by simp
    qed
    moreover from grid [OF j] have "nat (int r0 + j * dr) < 6" and "nat (int c0 + j * dc) < 7"
      by linarith+
    with grid [OF j] have "?g j \<in> pieces b ch" by (simp add: pieces_def)
    ultimately show "x \<in> pieces b ch - {(r0, c0)}" using x by simp
  qed
  have "card K = card (?g ` K)" using inj by (simp add: card_image)
  also have "\<dots> \<le> card (pieces b ch - {(r0, c0)})"
    by (rule card_mono) (use finite_pieces sub in auto)
  finally show ?thesis .
qed

lemma axis_four_needs_three:
  assumes nz: "(dr, dc) \<noteq> (0, 0)" and four: "axis_four b ch r0 c0 (dr, dc)"
  shows "3 \<le> card (pieces b ch - {(r0, c0)})"
proof -
  from four obtain p n where p: "run_of b ch r0 c0 dr dc p"
    and n: "run_of b ch r0 c0 (- dr) (- dc) n" and tot: "4 \<le> 1 + p + n"
    by auto
  let ?P = "int ` {1..p}" and ?N = "(\<lambda>k. - int k) ` {1..n}"
  have "\<forall>j\<in>?P \<union> ?N. occupied b ch (int r0 + j * dr) (int c0 + j * dc)"
    using p n unfolding run_of_def by auto
  moreover have "0 \<notin> ?P \<union> ?N" by auto
  moreover have "finite (?P \<union> ?N)" by simp
  ultimately have "card (?P \<union> ?N) \<le> card (pieces b ch - {(r0, c0)})"
    by (rule line_cells [OF nz])
  moreover have "card (?P \<union> ?N) = p + n"
  proof -
    have "?P \<inter> ?N = {}" by auto
    then have "card (?P \<union> ?N) = card ?P + card ?N"
      by (simp add: card_Un_disjoint)
    moreover have "card ?P = p" by (simp add: card_image)
    moreover have "inj_on (\<lambda>k. - int k) {1..n}" by (rule inj_onI) simp
    then have "card ?N = n" by (simp add: card_image)
    ultimately show ?thesis by simp
  qed
  ultimately show ?thesis using tot by simp
qed

lemma aligned_four_needs_three:
  assumes "aligned_four b r0 c0 ch"
  shows "3 \<le> card (pieces b ch - {(r0, c0)})"
proof -
  from assms obtain d where d: "d \<in> set directions" and four: "axis_four b ch r0 c0 d"
    unfolding aligned_four_def directions_def [symmetric] by blast
  obtain dr dc where dd: "d = (dr, dc)" by (cases d)
  with d have "(dr, dc) \<noteq> (0, 0)" by (auto simp: directions_def)
  from axis_four_needs_three [OF this four [unfolded dd]] show ?thesis .
qed

lemma few_pieces_no_four:
  assumes "card (pieces b ch) < 2"
  shows "\<not> completes_four (set_cell b row col ch 1) c ch"
proof
  let ?bc = "set_cell b row col ch 1"
  assume "completes_four ?bc c ch"
  then obtain r2 where "aligned_four (set_cell ?bc r2 c ch 1) r2 c ch"
    unfolding completes_four_def by blast
  from aligned_four_needs_three [OF this]
  have "3 \<le> card (pieces (set_cell ?bc r2 c ch 1) ch - {(r2, c)})" .
  also have "\<dots> \<le> card (pieces ?bc ch)"
    by (rule card_mono [OF finite_pieces pieces_set_cell])
  also have "\<dots> \<le> card (insert (row, col) (pieces b ch))"
    by (rule card_mono) (use finite_pieces pieces_set_cell [of b row col ch 1] in auto)
  also have "\<dots> \<le> Suc (card (pieces b ch))"
    by (rule card_insert_le_m1) simp_all
  finally show False using assms by simp
qed

lemma few_pieces_no_double_threat:
  assumes "card (pieces b ch) < 2"
  shows "\<not> double_threat b col ch"
  unfolding double_threat_def using few_pieces_no_four [OF assms] by simp

section \<open>Extending three aligned pieces\<close>

lemma run_of_exists:
  assumes "(dr, dc) \<noteq> (0, 0)"
  shows "\<exists>p. run_of b ch row col dr dc p"
  using positive_loop_run_of [OF assms, of b ch row col 0] by blast

lemma run_of_at_least:
  assumes run: "run_of b ch row col dr dc p"
    and occ: "\<forall>k\<in>{1..m}. occupied b ch (int row + int k * dr) (int col + int k * dc)"
  shows "m \<le> p"
proof (rule ccontr)
  assume "\<not> m \<le> p"
  then have "p + 1 \<in> {1..m}" by simp
  with occ have "occupied b ch (int row + int (p + 1) * dr) (int col + int (p + 1) * dc)"
    by blast
  with run show False by (simp add: run_of_def)
qed

lemma occupied_set_cell:
  assumes "(r, c) \<noteq> (int row, int col)"
  shows "occupied (set_cell b row col ch v) ch r c = occupied b ch r c"
  by (rule occupied_cong [OF _ assms]) (simp add: set_cell_def)

lemma three_on_axis:
  assumes nz: "(dr, dc) \<noteq> (0, 0)"
    and occ: "\<forall>k\<in>{1..3}. occupied b ch (int row + int k * dr) (int col + int k * dc)"
  shows "axis_four (set_cell b row col ch 1) ch row col (dr, dc) \<and>
         axis_four (set_cell b row col ch 1) ch row col (- dr, - dc)"
proof -
  let ?bc = "set_cell b row col ch 1"
  have occ': "\<forall>k\<in>{1..3}. occupied ?bc ch (int row + int k * dr) (int col + int k * dc)"
  proof
    fix k :: nat
    assume k: "k \<in> {1..3}"
    then have "0 < k" by simp
    from occupied_set_cell [OF off_origin [OF nz this]] occ k
    show "occupied ?bc ch (int row + int k * dr) (int col + int k * dc)" by blast
  qed
  from nz have nz': "(- dr, - dc) \<noteq> (0, 0)" by simp
  from run_of_exists [OF nz] obtain p where p: "run_of ?bc ch row col dr dc p" by blast
  from run_of_exists [OF nz'] obtain n where n: "run_of ?bc ch row col (- dr) (- dc) n" by blast
  from run_of_at_least [OF p occ'] have tot: "4 \<le> 1 + p + n" "4 \<le> 1 + n + p" by simp_all
  from p have p': "run_of ?bc ch row col (- (- dr)) (- (- dc)) p" by simp
  from p n tot(1) have "axis_four ?bc ch row col (dr, dc)"
    unfolding axis_four.simps by blast
  moreover from n p' tot(2) have "axis_four ?bc ch row col (- dr, - dc)"
    unfolding axis_four.simps by blast
  ultimately show ?thesis ..
qed

lemma extends_three_aligned:
  assumes "extends_three b ch row col"
  shows "aligned_four (set_cell b row col ch 1) row col ch"
proof -
  from assms obtain dr dc where
    d: "(dr, dc) \<in> set [(0, 1), (0, -1), (1, 0), (-1, 0), (-1, 1), (1, -1), (1, 1), (-1, -1)]"
    and occ: "\<forall>k\<in>{1, 2, 3}. occupied b ch (int row + int k * dr) (int col + int k * dc)"
    unfolding extends_three_def by blast
  have "{1..3} = {1, 2, 3::nat}" by auto
  with occ have occ': "\<forall>k\<in>{1..3}. occupied b ch (int row + int k * dr) (int col + int k * dc)"
    by simp
  from d have nz: "(dr, dc) \<noteq> (0, 0)" by auto
  note both = three_on_axis [OF nz occ']
  from d have "(dr, dc) \<in> set directions \<or> (- dr, - dc) \<in> set directions"
    by (auto simp: directions_def)
  with both show ?thesis
    unfolding aligned_four_def directions_def [symmetric] by blast
qed

lemma find_sorted_first:
  assumes "sorted xs" and "x \<in> set xs" and "P x"
  shows "\<exists>y\<le>x. find P xs = Some y"
  using assms
proof (induction xs)
  case Nil
  then show ?case by simp
next
  case (Cons a xs)
  show ?case
  proof (cases "P a")
    case True
    moreover from Cons.prems have "a \<le> x" by auto
    ultimately show ?thesis by simp
  next
    case False
    with Cons.prems have "x \<in> set xs" and "sorted xs" by auto
    from Cons.IH [OF this(2) this(1) Cons.prems(3)] False show ?thesis by simp
  qed
qed

lemma find_sorted_least:
  assumes "sorted xs" and "find P xs = Some y"
  shows "y \<in> set xs \<and> P y \<and> (\<forall>x\<in>set xs. x < y \<longrightarrow> \<not> P x)"
  using assms
proof (induction xs)
  case Nil
  then show ?case by simp
next
  case (Cons a xs)
  show ?case
  proof (cases "P a")
    case True
    with Cons.prems show ?thesis by auto
  next
    case False
    with Cons.prems have "find P xs = Some y" and "sorted xs" by auto
    from Cons.IH [OF this(2) this(1)] False show ?thesis by auto
  qed
qed

section \<open>Copies keep the caller's board\<close>

lemma frame_refl: "frame s s"
  by (simp add: frame_def)

lemma frame_trans: "frame s s' \<Longrightarrow> frame s' s'' \<Longrightarrow> frame s s''"
  by (auto simp: frame_def)

lemma frame_copy_set:
  assumes "np_copy a s = (r, s1)"
  shows "frame s (np_setitem r row col ch v s1)"
    and "arrays (np_setitem r row col ch v s1) r = set_cell (arrays s a) row col ch v"
    and "r < next_ref (np_setitem r row col ch v s1)"
  using assms by (auto simp: np_copy_def np_setitem_def frame_def)

lemma frame_same:
  assumes "frame s s'" and "a < next_ref s"
  shows "arrays s' a = arrays s a" and "a < next_ref s'"
  using assms by (auto simp: frame_def)

lemma find_winning_move_st_frame:
  assumes "a < next_ref s"
  shows "frame s (snd (find_winning_move_st a valid ch s)) \<and>
         fst (find_winning_move_st a valid ch s) = find_winning_move (arrays s a) valid ch"
  using assms
proof (induction valid arbitrary: s)
  case Nil
  show ?case by (simp add: frame_refl)
next
  case (Cons col rest)
  show ?case
  proof (cases "get_next_row (arrays s a) col")
    case (Inl e)
    then show ?thesis by (simp add: frame_refl)
  next
    case (Inr landing)
    show ?thesis
    proof (cases landing)
      case None
      with Inr Cons.IH [OF Cons.prems] show ?thesis by simp
    next
      case (Some row)
      obtain r s1 where copy: "np_copy a s = (r, s1)" by (cases "np_copy a s")
      define s2 where "s2 = np_setitem r row col ch 1 s1"
      note fr = frame_copy_set [OF copy, of row col ch 1, folded s2_def]
      note same = frame_same [OF fr(1) Cons.prems]
      have step: "find_winning_move_st a (col # rest) ch s =
          (case check_win_from_position (arrays s2 r) row col ch of
             None \<Rightarrow> (None, s2)
           | Some True \<Rightarrow> (Some (Inr (Some col)), s2)
           | Some False \<Rightarrow> find_winning_move_st a rest ch s2)"
        using Inr Some copy by (simp add: s2_def Let_def split: option.splits bool.splits)
      have pure: "find_winning_move (arrays s a) (col # rest) ch =
          (case check_win_from_position (arrays s2 r) row col ch of
             None \<Rightarrow> None
           | Some True \<Rightarrow> Some (Inr (Some col))
           | Some False \<Rightarrow> find_winning_move (arrays s a) rest ch)"
        using Inr Some fr(2) by simp
      show ?thesis
      proof (cases "check_win_from_position (arrays s2 r) row col ch")
        case None
        with step pure fr(1) show ?thesis by simp
      next
        case (Some won)
        show ?thesis
        proof (cases won)
          case True
          with Some step pure fr(1) show ?thesis by simp
        next
          case False
          from Cons.IH [OF same(2)] same(1)
          have "frame s2 (snd (find_winning_move_st a rest ch s2))"
            and "fst (find_winning_move_st a rest ch s2) = find_winning_move (arrays s a) rest ch"
            by simp_all
          with False Some step pure frame_trans [OF fr(1)] show ?thesis by simp
        qed
      qed
    qed
  qed
qed

lemma double_threat_loop_st_frame:
  assumes "a < next_ref s"
  shows "frame s (snd (double_threat_loop_st a ch cs wm s)) \<and>
         fst (double_threat_loop_st a ch cs wm s) = double_threat_loop (arrays s a) ch cs wm"
  using assms
proof (induction cs arbitrary: s wm)
  case Nil
  show ?case by (simp add: frame_refl)
next
  case (Cons col rest)
  show ?case
  proof (cases "get_next_row (arrays s a) col")
    case (Inl e)
    then show ?thesis by (simp add: frame_refl)
  next
    case (Inr landing)
    show ?thesis
    proof (cases landing)
      case None
      with Inr Cons.IH [OF Cons.prems] show ?thesis by simp
    next
      case (Some row)
      obtain r s1 where copy: "np_copy a s = (r, s1)" by (cases "np_copy a s")
      define s2 where "s2 = np_setitem r row col ch 1 s1"
      note fr = frame_copy_set [OF copy, of row col ch 1, folded s2_def]
      note same = frame_same [OF fr(1) Cons.prems]
      define wm' where "wm' won = (if won then wm + 1 else wm)" for won
      have step: "double_threat_loop_st a ch (col # rest) wm s =
          (case check_win_from_position (arrays s2 r) row col ch of
             None \<Rightarrow> (None, s2)
           | Some won \<Rightarrow>
               if 2 \<le> wm' won then (Some (Inr True), s2)
               else double_threat_loop_st a ch rest (wm' won) s2)"
        using Inr Some copy by (simp add: s2_def wm'_def Let_def split: option.splits)
      have pure: "double_threat_loop (arrays s a) ch (col # rest) wm =
          (case check_win_from_position (arrays s2 r) row col ch of
             None \<Rightarrow> None
           | Some won \<Rightarrow>
               if 2 \<le> wm' won then Some (Inr True)
               else double_threat_loop (arrays s a) ch rest (wm' won))"
        using Inr Some fr(2) by (simp add: wm'_def Let_def split: option.splits)
      show ?thesis
      proof (cases "check_win_from_position (arrays s2 r) row col ch")
        case None
        with step pure fr(1) show ?thesis by simp
      next
        case (Some won)
        show ?thesis
        proof (cases "2 \<le> wm' won")
          case True
          with Some step pure fr(1) show ?thesis by simp
        next
          case False
          from Cons.IH [OF same(2), of "wm' won"] same(1)
          have "frame s2 (snd (double_threat_loop_st a ch rest (wm' won) s2))"
            and "fst (double_threat_loop_st a ch rest (wm' won) s2) =
              double_threat_loop (arrays s a) ch rest (wm' won)"
            by simp_all
          with False Some step pure frame_trans [OF fr(1)] show ?thesis by simp
        qed
      qed
    qed
  qed
qed

lemma creates_double_threat_st_frame:
  assumes "a < next_ref s"
  shows "frame s (snd (creates_double_threat_st a col ch s)) \<and>
         fst (creates_double_threat_st a col ch s) = creates_double_threat (arrays s a) col ch"
proof (cases "get_next_row (arrays s a) col")
  case (Inl e)
  then show ?thesis
    by (simp add: creates_double_threat_st_def creates_double_threat_def frame_refl)
next
  case (Inr landing)
  show ?thesis
  proof (cases landing)
    case None
    with Inr show ?thesis
      by (simp add: creates_double_threat_st_def creates_double_threat_def frame_refl)
  next
    case (Some row)
    obtain r s1 where copy: "np_copy a s = (r, s1)" by (cases "np_copy a s")
    define s2 where "s2 = np_setitem r row col ch 1 s1"
    note fr = frame_copy_set [OF copy, of row col ch 1, folded s2_def]
    have step: "creates_double_threat_st a col ch s = double_threat_loop_st r ch [0..<7] 0 s2"
      using Inr Some copy by (simp add: creates_double_threat_st_def s2_def)
    have pure: "creates_double_threat (arrays s a) col ch =
        double_threat_loop (arrays s2 r) ch [0..<7] 0"
      using Inr Some fr(2) by (simp add: creates_double_threat_def)
    from double_threat_loop_st_frame [OF fr(3), of ch "[0..<7]" 0] frame_trans [OF fr(1)]
    show ?thesis unfolding step pure by blast
  qed
qed

lemma find_winning_move_st_result:
  assumes "a < next_ref s"
  obtains s' where "find_winning_move_st a valid ch s = (find_winning_move (arrays s a) valid ch, s')"
    and "frame s s'"
  using find_winning_move_st_frame [OF assms, of valid ch]
  by (cases "find_winning_move_st a valid ch s") auto

lemma creates_double_threat_st_result:
  assumes "a < next_ref s"
  obtains s' where "creates_double_threat_st a col ch s = (creates_double_threat (arrays s a) col ch, s')"
    and "frame s s'"
  using creates_double_threat_st_frame [OF assms, of col ch]
  by (cases "creates_double_threat_st a col ch s") auto

lemma double_threat_move_st_frame:
  assumes "a < next_ref s"
  shows "frame s (snd (double_threat_move_st a valid ch s)) \<and>
         fst (double_threat_move_st a valid ch s) = double_threat_move (arrays s a) valid ch"
  using assms
proof (induction valid arbitrary: s)
  case Nil
  show ?case by (simp add: frame_refl)
next
  case (Cons col rest)
  from creates_double_threat_st_result [OF Cons.prems, of col ch]
  obtain s' where call: "creates_double_threat_st a col ch s =
      (creates_double_threat (arrays s a) col ch, s')" and fr: "frame s s'"
    by blast
  note same = frame_same [OF fr Cons.prems]
  from Cons.IH [OF same(2)] same(1)
  have rest: "frame s' (snd (double_threat_move_st a rest ch s'))"
    "fst (double_threat_move_st a rest ch s') = double_threat_move (arrays s a) rest ch"
    by simp_all
  from frame_trans [OF fr rest(1)] rest(2) fr show ?case
    by (simp add: call split: option.splits sum.splits bool.splits)
qed

lemma double_threat_move_st_result:
  assumes "a < next_ref s"
  obtains s' where "double_threat_move_st a valid ch s = (double_threat_move (arrays s a) valid ch, s')"
    and "frame s s'"
  using double_threat_move_st_frame [OF assms, of valid ch]
  by (cases "double_threat_move_st a valid ch s") auto

lemma outcome_cases:
  fixes x :: "(error + 'a option) option"
  obtains (diverges) "x = None" | (raises) e where "x = Some (Inl e)"
  | (found) c where "x = Some (Inr (Some c))" | (nothing) "x = Some (Inr None)"
proof (cases x)
  case None
  then show ?thesis by (rule diverges)
next
  case (Some r)
  show ?thesis
  proof (cases r)
    case (Inl e)
    with Some show ?thesis by (simp add: raises)
  next
    case (Inr v)
    show ?thesis
    proof (cases v)
      case None
      with Inr Some have "x = Some (Inr None)" by simp
      then show ?thesis by (rule nothing)
    next
      case (Some c)
      with Inr \<open>x = Some r\<close> have "x = Some (Inr (Some c))" by simp
      then show ?thesis by (rule found)
    qed
  qed
qed

lemma select_column_st_frame:
  assumes "a < next_ref s"
  shows "frame s (snd (select_column_st a valid rnd s)) \<and>
         fst (select_column_st a valid rnd s) = select_column (arrays s a) valid rnd"
proof -
  from find_winning_move_st_result [OF assms, of valid Mover]
  obtain s1 where c1: "find_winning_move_st a valid Mover s =
      (find_winning_move (arrays s a) valid Mover, s1)" and f1: "frame s s1"
    by blast
  note same1 = frame_same [OF f1 assms]
  from find_winning_move_st_result [OF same1(2), of valid Opponent] same1(1)
  obtain s2 where c2: "find_winning_move_st a valid Opponent s1 =
      (find_winning_move (arrays s a) valid Opponent, s2)" and f2: "frame s1 s2"
    by auto
  note g2 = frame_trans [OF f1 f2]
  note same2 = frame_same [OF g2 assms]
  from double_threat_move_st_result [OF same2(2), of valid Mover] same2(1)
  obtain s3 where c3: "double_threat_move_st a valid Mover s2 =
      (double_threat_move (arrays s a) valid Mover, s3)" and f3: "frame s2 s3"
    by auto
  note g3 = frame_trans [OF g2 f3]
  note same3 = frame_same [OF g3 assms]
  from double_threat_move_st_result [OF same3(2), of valid Opponent] same3(1)
  obtain s4 where c4: "double_threat_move_st a valid Opponent s3 =
      (double_threat_move (arrays s a) valid Opponent, s4)" and f4: "frame s3 s4"
    by auto
  note g4 = frame_trans [OF g3 f4]
  note defs = select_column_st_def select_column_def
  show ?thesis
  proof (cases rule: outcome_cases [of "find_winning_move (arrays s a) valid Mover"])
    case diverges
    with f1 show ?thesis by (simp add: defs c1)
  next
    case (raises e)
    with f1 show ?thesis by (simp add: defs c1)
  next
    case (found c)
    with f1 show ?thesis by (simp add: defs c1)
  next
    case nothing
    note r1 = this
    show ?thesis
    proof (cases rule: outcome_cases [of "find_winning_move (arrays s a) valid Opponent"])
      case diverges
      with g2 show ?thesis by (simp add: defs c1 c2 r1)
    next
      case (raises e)
      with g2 show ?thesis by (simp add: defs c1 c2 r1)
    next
      case (found c)
      with g2 show ?thesis by (simp add: defs c1 c2 r1)
    next
      case nothing
      note r2 = this
      show ?thesis
      proof (cases rule: outcome_cases [of "double_threat_move (arrays s a) valid Mover"])
        case diverges
        with g3 show ?thesis by (simp add: defs c1 c2 c3 r1 r2)
      next
        case (raises e)
        with g3 show ?thesis by (simp add: defs c1 c2 c3 r1 r2)
      next
        case (found c)
        with g3 show ?thesis by (simp add: defs c1 c2 c3 r1 r2)
      next
        case nothing
        note r3 = this
        show ?thesis
        proof (cases rule: outcome_cases [of "double_threat_move (arrays s a) valid Opponent"])
          case diverges
          with g4 show ?thesis by (simp add: defs c1 c2 c3 c4 r1 r2 r3)
        next
          case (raises e)
          with g4 show ?thesis by (simp add: defs c1 c2 c3 c4 r1 r2 r3)
        next
          case (found c)
          with g4 show ?thesis by (simp add: defs c1 c2 c3 c4 r1 r2 r3)
        next
          case nothing
          with g4 show ?thesis
            by (cases "find (\<lambda>col. col \<in> set valid) center_preference")
               (simp_all add: defs c1 c2 c3 c4 r1 r2 r3)
        qed
      qed
    qed
  qed
qed

lemma choose_action_st_frame:
  assumes "board_ref obs < next_ref s"
  shows "frame s (snd (choose_action_st obs am rnd s)) \<and>
         fst (choose_action_st obs am rnd s) = choose_action (deref s obs) am rnd"
  using assms
  by (cases obs; cases am)
     (simp_all add: choose_action_st_def choose_action_def select_column_st_frame frame_refl)

section \<open>Properties of the agent\<close>

text \<open>
  C1. \<open>choose_action\<close> implements the priority policy over the board and the legal
  columns: a winning column of the mover if there is one, else a column that blocks the
  opponent's immediate win, else the first legal column that creates a double threat of
  the mover, else the first that creates one of the opponent, else the first legal column
  of the order \<open>[3, 2, 4, 1, 5, 0, 6]\<close>. When both sides have an immediate win the
  mover's winning column is returned, and on the empty board with all columns legal the
  result is column 3.
\<close>

theorem choose_action_priority_policy:
  assumes "mask_of obs am = Some m" and "length m = 7"
  shows "choose_action obs am rnd =
           Some (case priority_policy (board_of obs) (get_valid_actions m) of
                   Some c \<Rightarrow> Inr c | None \<Rightarrow> Inl IndexError) \<and>
         ((\<exists>c\<in>set (get_valid_actions m). completes_four (board_of obs) c Mover) \<and>
          (\<exists>c\<in>set (get_valid_actions m). completes_four (board_of obs) c Opponent) \<longrightarrow>
          (\<exists>c. find (\<lambda>c. completes_four (board_of obs) c Mover) (get_valid_actions m) = Some c \<and>
               choose_action obs am rnd = Some (Inr c))) \<and>
         choose_action (Direct (pieces_board [] [])) (Some [1, 1, 1, 1, 1, 1, 1]) rnd =
           Some (Inr 3) \<and>
         sorted (get_valid_actions m) \<and> set (get_valid_actions m) = {c. c < 7 \<and> m ! c = 1}"
proof (intro conjI impI)
  note valid = valid_actions_in_grid [OF assms(2)]
  show "sorted (get_valid_actions m)"
    by (rule sorted_get_valid_actions)
  show "set (get_valid_actions m) = {c. c < 7 \<and> m ! c = 1}"
    using assms(2) by (simp add: set_get_valid_actions)
  show policy: "choose_action obs am rnd =
           Some (case priority_policy (board_of obs) (get_valid_actions m) of
                   Some c \<Rightarrow> Inr c | None \<Rightarrow> Inl IndexError)"
    by (simp only: choose_action_select [OF assms(1)] select_column_policy [OF valid])
  show "choose_action (Direct (pieces_board [] [])) (Some [1, 1, 1, 1, 1, 1, 1]) rnd =
           Some (Inr 3)"
    by code_simp
  assume "(\<exists>c\<in>set (get_valid_actions m). completes_four (board_of obs) c Mover) \<and>
          (\<exists>c\<in>set (get_valid_actions m). completes_four (board_of obs) c Opponent)"
  then obtain c where
    c: "find (\<lambda>c. completes_four (board_of obs) c Mover) (get_valid_actions m) = Some c"
    by (cases "find (\<lambda>c. completes_four (board_of obs) c Mover) (get_valid_actions m)")
       (auto simp: find_None_iff)
  then have "priority_policy (board_of obs) (get_valid_actions m) = Some c"
    by (simp add: priority_policy_def)
  with policy c show "\<exists>c. find (\<lambda>c. completes_four (board_of obs) c Mover)
        (get_valid_actions m) = Some c \<and> choose_action obs am rnd = Some (Inr c)"
    by simp
qed

theorem choose_action_priority_policy_witness:
  "choose_action (Direct both_win) (Some [1, 1, 1, 1, 1, 1, 1]) 0 = Some (Inr 3) \<and>
   priority_policy both_win (get_valid_actions [1, 1, 1, 1, 1, 1, 1]) = Some 3 \<and>
   completes_four both_win 3 Mover \<and> completes_four both_win 6 Opponent"
proof -
  have run: "choose_action (Direct both_win) (Some [1, 1, 1, 1, 1, 1, 1]) 0 = Some (Inr 3)"
    by code_simp
  have mover: "completes_four both_win 3 Mover"
    unfolding completes_four_single [of 3, simplified] by code_simp
  have opponent: "completes_four both_win 6 Opponent"
    unfolding completes_four_single [of 6, simplified] by code_simp
  have "mask_of (Direct both_win) (Some [1, 1, 1, 1, 1, 1, 1]) = Some [1, 1, 1, 1, 1, 1, 1]"
    and "length [1, 1, 1, 1, 1, 1, 1 :: int] = 7"
    by simp_all
  from choose_action_priority_policy [OF this, of 0] run
  have "priority_policy both_win (get_valid_actions [1, 1, 1, 1, 1, 1, 1]) = Some 3"
    by (auto split: option.splits)
  with run mover opponent show ?thesis by simp
qed

text \<open>
  C2. For every board and every action mask with a true entry, \<open>choose_action\<close> returns a
  column in \<open>[0, 6]\<close> whose mask entry is true; when exactly one entry is true that column
  is returned, whatever the board (the mask \<open>[0, 0, 0, 0, 0, 0, 1]\<close> gives column 6).
\<close>

theorem choose_action_legal:
  assumes "mask_of obs am = Some m" and "length m = 7" and "i < 7" and "m ! i = 1"
  shows "(\<exists>c<7. m ! c = 1 \<and> choose_action obs am rnd = Some (Inr c)) \<and>
         ((\<forall>j<7. m ! j = 1 \<longrightarrow> j = i) \<longrightarrow> choose_action obs am rnd = Some (Inr i)) \<and>
         choose_action (Direct b) (Some [0, 0, 0, 0, 0, 0, 1]) rnd = Some (Inr 6)"
proof -
  have legal: "\<exists>c<7. m ! c = 1 \<and> choose_action obs am rnd = Some (Inr c)"
    if "mask_of obs am = Some m" and "length m = 7" and "i < 7" and "m ! i = 1"
    for obs am m i
  proof -
    note valid = valid_actions_in_grid [OF that(2)]
    from that have "i \<in> set (get_valid_actions m)" by (simp add: set_get_valid_actions)
    then have "get_valid_actions m \<noteq> []" by auto
    from priority_policy_Some [OF this valid]
    obtain c where c: "priority_policy (board_of obs) (get_valid_actions m) = Some c" by blast
    from priority_policy_legal [OF c] that(2) have "c < 7" "m ! c = 1"
      by (simp_all add: set_get_valid_actions)
    moreover from c have "choose_action obs am rnd = Some (Inr c)"
      by (simp only: choose_action_select [OF that(1)] select_column_policy [OF valid]) simp
    ultimately show ?thesis by blast
  qed
  have forced: "choose_action obs am rnd = Some (Inr i)"
    if "mask_of obs am = Some m" and "length m = 7" and "i < 7" and "m ! i = 1"
      and "\<forall>j<7. m ! j = 1 \<longrightarrow> j = i"
    for obs am m i
    using legal [OF that(1-4)] that(5) by auto
  have "choose_action (Direct b) (Some [0, 0, 0, 0, 0, 0, 1]) rnd = Some (Inr 6)"
    by (rule forced [where m = "[0, 0, 0, 0, 0, 0, 1]"])
       (auto simp: nth_Cons' )
  with legal [OF assms] forced [OF assms] show ?thesis by blast
qed

theorem choose_action_legal_witness:
  "[0, 0, 0, 0, 0, 0, 1] ! 6 = (1::int) \<and>
   choose_action (Direct bottom_three) (Some [0, 0, 0, 0, 0, 0, 1]) 0 = Some (Inr 6)"
proof -
  have "mask_of (Direct bottom_three) (Some [0, 0, 0, 0, 0, 0, 1]) = Some [0, 0, 0, 0, 0, 0, 1]"
    and "length [0, 0, 0, 0, 0, 0, 1 :: int] = 7" and "(6::nat) < 7"
    and "[0, 0, 0, 0, 0, 0, 1] ! 6 = (1::int)"
    by simp_all
  from choose_action_legal [OF this, of 0 bottom_three] this(4) show ?thesis by blast
qed

text \<open>
  C3. For every board and every column in \<open>[0, 6]\<close>, \<open>_get_next_row\<close> returns the largest
  row index in \<open>[0, 5]\<close> whose cell is empty in both layers (the lowest empty cell under
  gravity), and it returns \<open>None\<close> exactly when the column has no empty cell.
\<close>

theorem get_next_row_lowest_empty:
  assumes "col < 7"
  shows "get_next_row b col =
           Inr (if \<exists>r<6. empty_cell b r col
                then Some (Max {r. r < 6 \<and> empty_cell b r col}) else None)"
  using assms
proof (cases rule: get_next_row_cases [where b = b and col = col])
  case full
  then show ?thesis by simp
next
  case (lands row)
  from lands(2) have "Max {r. r < 6 \<and> empty_cell b r col} = row"
    unfolding lowest_empty_def
    by (intro Max_eqI) (auto simp: not_less [symmetric])
  moreover from lands(2) have "\<exists>r<6. empty_cell b r col"
    unfolding lowest_empty_def by blast
  ultimately show ?thesis using lands(1) by simp
qed

theorem get_next_row_lowest_empty_witness:
  "(3::nat) < 7 \<and> (\<exists>r<6. empty_cell (pieces_board [(5, 3)] []) r 3) \<and>
   get_next_row (pieces_board [(5, 3)] []) 3 = Inr (Some 4) \<and>
   Max {r. r < 6 \<and> empty_cell (pieces_board [(5, 3)] []) r 3} = 4"
proof -
  have run: "get_next_row (pieces_board [(5, 3)] []) 3 = Inr (Some 4)"
    by code_simp
  have hyp: "(3::nat) < 7" by simp
  from get_next_row_lowest_empty [OF hyp, of "pieces_board [(5, 3)] []"] run
  show ?thesis by (auto split: if_splits)
qed

text \<open>
  C4. For every board, row, column and channel, \<open>_check_win_from_position\<close> returns, and
  it returns \<open>True\<close> exactly when for one of the axes \<open>(0, 1)\<close>, \<open>(1, 0)\<close>, \<open>(-1, 1)\<close>,
  \<open>(1, 1)\<close> the sum of 1, the run in the positive sense and the run in the negative sense
  is at least 4; a run stops at the border of the grid and at the first cell that is not
  set for the channel.
\<close>

theorem check_win_from_position_axes:
  "check_win_from_position b row col ch =
     Some (\<exists>(dr, dc)\<in>set [(0, 1), (1, 0), (-1, 1), (1, 1)]. \<exists>p n.
             run_of b ch row col dr dc p \<and> run_of b ch row col (- dr) (- dc) n \<and>
             4 \<le> 1 + p + n)"
proof -
  have "aligned_four b row col ch \<longleftrightarrow>
      (\<exists>(dr, dc)\<in>set [(0, 1), (1, 0), (-1, 1), (1, 1)]. \<exists>p n.
             run_of b ch row col dr dc p \<and> run_of b ch row col (- dr) (- dc) n \<and>
             4 \<le> 1 + p + n)"
    unfolding aligned_four_def by (simp del: One_nat_def)
  then show ?thesis by (simp only: check_win_total)
qed

theorem check_win_from_position_axes_witness:
  "check_win_from_position bottom_three 5 3 Mover = Some True \<and>
   (\<exists>(dr, dc)\<in>set [(0, 1), (1, 0), (-1, 1), (1, 1)]. \<exists>p n.
      run_of bottom_three Mover 5 3 dr dc p \<and> run_of bottom_three Mover 5 3 (- dr) (- dc) n \<and>
      4 \<le> 1 + p + n)"
proof -
  have run: "check_win_from_position bottom_three 5 3 Mover = Some True"
    by code_simp
  from check_win_from_position_axes [of bottom_three 5 3 Mover] run
  show ?thesis by (simp only: option.inject simp_thms)
qed

text \<open>
  C5, as amended. For every board, channel and ascending list of legal columns,
  \<open>_find_winning_move\<close> returns the first legal column whose landing cell completes four
  for the channel, and \<open>None\<close> when no legal column does. Where the channel has three
  aligned pieces with an open extension cell that is the landing cell of a legal column,
  the function returns a column that completes four, of index at most the extension
  column, and the extension column itself when no legal column of smaller index
  completes four.
\<close>

theorem find_winning_move_first:
  assumes "sorted valid" and "\<forall>c\<in>set valid. c < 7"
  shows "(\<forall>c. find_winning_move b valid ch = Some (Inr (Some c)) \<longleftrightarrow>
            c \<in> set valid \<and> completes_four b c ch \<and>
            (\<forall>c'\<in>set valid. c' < c \<longrightarrow> \<not> completes_four b c' ch)) \<and>
         (find_winning_move b valid ch = Some (Inr None) \<longleftrightarrow>
            (\<forall>c\<in>set valid. \<not> completes_four b c ch)) \<and>
         (\<forall>row col. col \<in> set valid \<and> lowest_empty b col row \<and> extends_three b ch row col \<longrightarrow>
            (\<exists>c\<le>col. find_winning_move b valid ch = Some (Inr (Some c)) \<and>
               ((\<forall>c'\<in>set valid. c' < col \<longrightarrow> \<not> completes_four b c' ch) \<longrightarrow> c = col)))"
proof (intro conjI allI impI)
  note run = find_winning_move_find [OF assms(2), of b ch]
  show "find_winning_move b valid ch = Some (Inr (Some c)) \<longleftrightarrow>
            c \<in> set valid \<and> completes_four b c ch \<and>
            (\<forall>c'\<in>set valid. c' < c \<longrightarrow> \<not> completes_four b c' ch)" for c
  proof
    assume "find_winning_move b valid ch = Some (Inr (Some c))"
    with run have "find (\<lambda>c. completes_four b c ch) valid = Some c" by simp
    from find_sorted_least [OF assms(1) this]
    show "c \<in> set valid \<and> completes_four b c ch \<and>
            (\<forall>c'\<in>set valid. c' < c \<longrightarrow> \<not> completes_four b c' ch)" .
  next
    assume c: "c \<in> set valid \<and> completes_four b c ch \<and>
            (\<forall>c'\<in>set valid. c' < c \<longrightarrow> \<not> completes_four b c' ch)"
    with find_sorted_first [OF assms(1), of c "\<lambda>c. completes_four b c ch"]
    obtain y where y: "y \<le> c" "find (\<lambda>c. completes_four b c ch) valid = Some y" by blast
    from find_sorted_least [OF assms(1) y(2)] c y(1) have "y = c"
      by (metis le_neq_implies_less)
    with y(2) run show "find_winning_move b valid ch = Some (Inr (Some c))" by simp
  qed
  show "find_winning_move b valid ch = Some (Inr None) \<longleftrightarrow>
            (\<forall>c\<in>set valid. \<not> completes_four b c ch)"
    using run by (auto simp: find_None_iff)
  fix row col
  assume a: "col \<in> set valid \<and> lowest_empty b col row \<and> extends_three b ch row col"
  then have win: "completes_four b col ch"
    using completes_four_lands extends_three_aligned by blast
  with find_sorted_first [OF assms(1), of col "\<lambda>c. completes_four b c ch"] a
  obtain y where y: "y \<le> col" "find (\<lambda>c. completes_four b c ch) valid = Some y" by blast
  have "y = col" if "\<forall>c'\<in>set valid. c' < col \<longrightarrow> \<not> completes_four b c' ch"
    using find_sorted_least [OF assms(1) y(2)] that y(1) by (metis le_neq_implies_less)
  with y run show "\<exists>c\<le>col. find_winning_move b valid ch = Some (Inr (Some c)) \<and>
               ((\<forall>c'\<in>set valid. c' < col \<longrightarrow> \<not> completes_four b c' ch) \<longrightarrow> c = col)"
    by auto
qed

theorem find_winning_move_first_witness:
  "lowest_empty bottom_three 3 5 \<and> extends_three bottom_three Mover 5 3 \<and>
   find_winning_move bottom_three [0, 1, 2, 3, 4, 5, 6] Mover = Some (Inr (Some 3)) \<and>
   completes_four bottom_three 3 Mover \<and> \<not> completes_four bottom_three 2 Mover"
proof -
  have run: "find_winning_move bottom_three [0, 1, 2, 3, 4, 5, 6] Mover = Some (Inr (Some 3))"
    by code_simp
  have "get_next_row bottom_three 3 = Inr (Some 5)"
    by code_simp
  then have land: "lowest_empty bottom_three 3 5"
    by (simp add: get_next_row_Some)
  have ext: "extends_three bottom_three Mover 5 3"
    by code_simp
  have "sorted [0, 1, 2, 3, 4, 5, 6 :: nat]" and "\<forall>c\<in>set [0, 1, 2, 3, 4, 5, 6 :: nat]. c < 7"
    by simp_all
  note first = find_winning_move_first [OF this, of bottom_three Mover]
  from first run have "completes_four bottom_three 3 Mover \<and>
      (\<forall>c'\<in>set [0, 1, 2, 3, 4, 5, 6]. c' < 3 \<longrightarrow> \<not> completes_four bottom_three c' Mover)"
    by blast
  then have "completes_four bottom_three 3 Mover" and "\<not> completes_four bottom_three 2 Mover"
    by simp_all
  with run land ext show ?thesis by blast
qed

text \<open>
  The extension column need not be returned. On \<open>gap_board\<close> the mover has three pieces
  in column 6 and the open cell \<open>(2, 6)\<close> above them is the column's landing cell, yet
  column 2, which fills the gap of the bottom row, is returned. On \<open>floating_board\<close> the
  open cell \<open>(4, 3)\<close> extends three pieces of row 4, but a piece played in column 3 lands
  on row 5, and no column is returned.
\<close>

theorem find_winning_move_extension_counterexample:
  "extends_three gap_board Mover 2 6 \<and>
   get_next_row gap_board 6 = Inr (Some 2) \<and>
   find_winning_move gap_board [0, 1, 2, 3, 4, 5, 6] Mover = Some (Inr (Some 2)) \<and>
   extends_three floating_board Mover 4 3 \<and>
   get_next_row floating_board 3 = Inr (Some 5) \<and>
   find_winning_move floating_board [0, 1, 2, 3, 4, 5, 6] Mover = Some (Inr None)"
proof -
  have "extends_three gap_board Mover 2 6" by code_simp
  moreover have "get_next_row gap_board 6 = Inr (Some 2)" by code_simp
  moreover have "find_winning_move gap_board [0, 1, 2, 3, 4, 5, 6] Mover = Some (Inr (Some 2))"
    by code_simp
  moreover have "extends_three floating_board Mover 4 3" by code_simp
  moreover have "get_next_row floating_board 3 = Inr (Some 5)" by code_simp
  moreover have "find_winning_move floating_board [0, 1, 2, 3, 4, 5, 6] Mover = Some (Inr None)"
    by code_simp
  ultimately show ?thesis by blast
qed

text \<open>
  C6. For every board, column and channel, \<open>_creates_double_threat\<close> returns \<open>False\<close> when
  the column is full; otherwise, with a piece of the channel placed on the column's
  landing cell, it returns \<open>True\<close> exactly when at least two of the columns 0 to 6 of the
  board after the move have a landing cell on which a second piece of the channel
  completes four. It is \<open>False\<close> whenever the board holds fewer than two pieces of the
  channel.
\<close>

theorem creates_double_threat_counts:
  assumes "col < 7"
  shows "creates_double_threat b col ch =
           Some (Inr (\<exists>row. lowest_empty b col row \<and>
              2 \<le> card {c. c < 7 \<and> completes_four (set_cell b row col ch 1) c ch})) \<and>
         ((\<forall>r<6. \<not> empty_cell b r col) \<longrightarrow> creates_double_threat b col ch = Some (Inr False)) \<and>
         (card (pieces b ch) < 2 \<longrightarrow> creates_double_threat b col ch = Some (Inr False))"
proof (intro conjI impI)
  show "creates_double_threat b col ch =
           Some (Inr (\<exists>row. lowest_empty b col row \<and>
              2 \<le> card {c. c < 7 \<and> completes_four (set_cell b row col ch 1) c ch}))"
    using creates_double_threat_eq [OF assms] by (simp only: double_threat_def)
next
  assume "\<forall>r<6. \<not> empty_cell b r col"
  then have "\<not> double_threat b col ch"
    unfolding double_threat_def lowest_empty_def by blast
  then show "creates_double_threat b col ch = Some (Inr False)"
    by (simp add: creates_double_threat_eq [OF assms])
next
  assume "card (pieces b ch) < 2"
  from few_pieces_no_double_threat [OF this]
  show "creates_double_threat b col ch = Some (Inr False)"
    by (simp add: creates_double_threat_eq [OF assms])
qed


theorem creates_double_threat_counts_witness:
  "creates_double_threat two_bottom 4 Mover = Some (Inr True) \<and>
   (\<exists>row. lowest_empty two_bottom 4 row \<and>
      2 \<le> card {c. c < 7 \<and> completes_four (set_cell two_bottom row 4 Mover 1) c Mover}) \<and>
   creates_double_threat full_column 0 Mover = Some (Inr False) \<and>
   card (pieces one_piece Mover) < 2 \<and>
   creates_double_threat one_piece 1 Mover = Some (Inr False)"
proof -
  have run: "creates_double_threat two_bottom 4 Mover = Some (Inr True)"
    by code_simp
  have four: "(4::nat) < 7" and zero: "(0::nat) < 7" and one: "(1::nat) < 7"
    by simp_all
  from creates_double_threat_counts [OF four, of two_bottom Mover] run
  have threat: "\<exists>row. lowest_empty two_bottom 4 row \<and>
      2 \<le> card {c. c < 7 \<and> completes_four (set_cell two_bottom row 4 Mover 1) c Mover}"
    by simp
  have "get_next_row full_column 0 = Inr None"
    by code_simp
  then have "\<forall>r<6. \<not> empty_cell full_column r 0"
    by (simp add: get_next_row_None)
  with creates_double_threat_counts [OF zero, of full_column Mover]
  have full: "creates_double_threat full_column 0 Mover = Some (Inr False)"
    by blast
  have "pieces one_piece Mover = {(5, 0)}"
    by (auto simp: pieces_def one_piece_def pieces_board_def)
  then have few: "card (pieces one_piece Mover) < 2"
    by simp
  with creates_double_threat_counts [OF one, of one_piece Mover]
  have "creates_double_threat one_piece 1 Mover = Some (Inr False)"
    by blast
  with run threat full few show ?thesis by blast
qed

text \<open>
  C7. \<open>choose_action\<close>, \<open>_find_winning_move\<close> and \<open>_creates_double_threat\<close> leave the board
  they are given unchanged: every hypothetical piece is written to a fresh copy, every
  array allocated before the call holds after the call what it held before, and the
  result is the one computed on the board's contents.
\<close>

theorem hypothetical_moves_on_copies:
  assumes "a < next_ref s" and "board_ref obs = a"
  shows "(\<forall>r<next_ref s. arrays (snd (find_winning_move_st a valid ch s)) r = arrays s r) \<and>
         fst (find_winning_move_st a valid ch s) = find_winning_move (arrays s a) valid ch \<and>
         (\<forall>r<next_ref s. arrays (snd (creates_double_threat_st a col ch s)) r = arrays s r) \<and>
         fst (creates_double_threat_st a col ch s) = creates_double_threat (arrays s a) col ch \<and>
         (\<forall>r<next_ref s. arrays (snd (choose_action_st obs am rnd s)) r = arrays s r) \<and>
         fst (choose_action_st obs am rnd s) = choose_action (deref s obs) am rnd"
proof -
  from assms have obs: "board_ref obs < next_ref s" by simp
  from find_winning_move_st_frame [OF assms(1), of valid ch]
    creates_double_threat_st_frame [OF assms(1), of col ch]
    choose_action_st_frame [OF obs, of am rnd]
  show ?thesis unfolding frame_def by blast
qed

theorem hypothetical_moves_on_copies_witness:
  "arrays (snd (find_winning_move_st 0 [0, 1, 2, 3, 4, 5, 6] Mover caller_store)) 0 = bottom_three \<and>
   fst (find_winning_move_st 0 [0, 1, 2, 3, 4, 5, 6] Mover caller_store) = Some (Inr (Some 3)) \<and>
   arrays (snd (find_winning_move_st 0 [0, 1, 2, 3, 4, 5, 6] Mover caller_store)) 1 4 0 Mover = 1 \<and>
   bottom_three 4 0 Mover = 0 \<and>
   arrays (snd (creates_double_threat_st 0 3 Mover caller_store)) 0 = bottom_three \<and>
   arrays (snd (choose_action_st (Direct_ref 0) (Some [1, 1, 1, 1, 1, 1, 1]) 0 caller_store)) 0 =
     bottom_three \<and>
   fst (choose_action_st (Direct_ref 0) (Some [1, 1, 1, 1, 1, 1, 1]) 0 caller_store) = Some (Inr 3)"
proof -
  have alloc: "0 < next_ref caller_store" and obs: "board_ref (Direct_ref 0) = 0"
    and zero: "arrays caller_store 0 = bottom_three"
    by (simp_all add: caller_store_def)
  note unchanged = hypothetical_moves_on_copies [OF alloc obs,
      of "[0, 1, 2, 3, 4, 5, 6]" Mover 3 "Some [1, 1, 1, 1, 1, 1, 1]" 0]
  have copy: "arrays (snd (find_winning_move_st 0 [0, 1, 2, 3, 4, 5, 6] Mover caller_store))
      1 4 0 Mover = 1"
    by code_simp
  have orig: "bottom_three 4 0 Mover = 0"
    by code_simp
  have found: "fst (find_winning_move_st 0 [0, 1, 2, 3, 4, 5, 6] Mover caller_store) =
      Some (Inr (Some 3))"
    by code_simp
  have chosen: "fst (choose_action_st (Direct_ref 0) (Some [1, 1, 1, 1, 1, 1, 1]) 0 caller_store) =
      Some (Inr 3)"
    by code_simp
  from unchanged alloc zero copy orig found chosen show ?thesis by simp
qed

text \<open>
  C8. When the action mask has no true entry, \<open>choose_action\<close> fails with an error
  instead of returning a column: \<open>random.choice\<close> raises \<open>IndexError\<close> on the empty list of
  legal columns.
\<close>

theorem choose_action_no_legal_move:
  assumes "mask_of obs am = Some m" and "\<forall>i<length m. m ! i \<noteq> 1"
  shows "choose_action obs am rnd = Some (Inl IndexError)"
proof -
  from assms(2) have "set (get_valid_actions m) = {}"
    by (auto simp: set_get_valid_actions)
  then have "get_valid_actions m = []" by simp
  then show ?thesis
    by (simp add: choose_action_select [OF assms(1)] select_column_def random_choice_def
          center_preference_def)
qed

theorem choose_action_no_legal_move_witness:
  "choose_action (Direct bottom_three) (Some [0, 0, 0, 0, 0, 0, 0]) 0 = Some (Inl IndexError)"
proof -
  have "mask_of (Direct bottom_three) (Some [0, 0, 0, 0, 0, 0, 0]) = Some [0, 0, 0, 0, 0, 0, 0]"
    and "\<forall>i<length [0, 0, 0, 0, 0, 0, 0 :: int]. [0, 0, 0, 0, 0, 0, 0 :: int] ! i \<noteq> 1"
    by (simp_all add: nth_Cons')
  from choose_action_no_legal_move [OF this] show ?thesis .
qed

text \<open>
  C9. For every board and every action mask with a true entry, \<open>choose_action\<close> returns
  the same column whatever the random generator draws: the random fall-back is not
  reached when a column is legal.
\<close>

theorem choose_action_deterministic:
  assumes "mask_of obs am = Some m" and "length m = 7" and "i < 7" and "m ! i = 1"
  shows "(\<exists>c<7. \<forall>rnd. choose_action obs am rnd = Some (Inr c)) \<and>
         find (\<lambda>col. col \<in> set (get_valid_actions m)) center_preference \<noteq> None \<and>
         (\<forall>rnd rnd'. choose_action obs am rnd = choose_action obs am rnd')"
proof (intro conjI allI)
  note valid = valid_actions_in_grid [OF assms(2)]
  from assms have "i \<in> set (get_valid_actions m)" by (simp add: set_get_valid_actions)
  then have legal: "get_valid_actions m \<noteq> []" by auto
  from priority_policy_Some [OF this valid]
  obtain c where c: "priority_policy (board_of obs) (get_valid_actions m) = Some c" by blast
  from priority_policy_legal [OF c] assms(2) have "c < 7"
    by (simp add: set_get_valid_actions)
  moreover from c have "choose_action obs am rnd = Some (Inr c)" for rnd
    by (simp only: choose_action_select [OF assms(1)] select_column_policy [OF valid]) simp
  ultimately show "\<exists>c<7. \<forall>rnd. choose_action obs am rnd = Some (Inr c)" by blast
  from preference_None [OF _ valid] legal
  show "find (\<lambda>col. col \<in> set (get_valid_actions m)) center_preference \<noteq> None" by blast
  show "choose_action obs am rnd = choose_action obs am rnd'" for rnd rnd'
    by (simp only: choose_action_select [OF assms(1)] select_column_deterministic [of _ _ rnd rnd'])
qed

theorem choose_action_deterministic_witness:
  "\<forall>rnd. choose_action (Direct bottom_three) (Some [1, 1, 1, 1, 1, 1, 1]) rnd = Some (Inr 3)"
proof -
  have run: "choose_action (Direct bottom_three) (Some [1, 1, 1, 1, 1, 1, 1]) 0 = Some (Inr 3)"
    by code_simp
  have "mask_of (Direct bottom_three) (Some [1, 1, 1, 1, 1, 1, 1]) = Some [1, 1, 1, 1, 1, 1, 1]"
    and "length [1, 1, 1, 1, 1, 1, 1 :: int] = 7" and "(0::nat) < 7"
    and "[1, 1, 1, 1, 1, 1, 1] ! 0 = (1::int)"
    by simp_all
  from choose_action_deterministic [OF this] obtain c
    where "\<forall>rnd. choose_action (Direct bottom_three) (Some [1, 1, 1, 1, 1, 1, 1]) rnd = Some (Inr c)"
    by blast
  with run show ?thesis by (metis option.inject sum.inject(2))
qed

text \<open>
  C10. The result of \<open>_check_win_from_position\<close> does not depend on the content of the
  queried cell: on two boards that agree on every cell other than \<open>(row, col)\<close> it
  returns the same value.
\<close>

theorem check_win_ignores_queried_cell:
  assumes "\<forall>r c k. (r, c) \<noteq> (row, col) \<longrightarrow> b1 r c k = b2 r c k"
  shows "check_win_from_position b1 row col ch = check_win_from_position b2 row col ch"
  using aligned_four_cong [OF assms] by (simp add: check_win_total)

theorem check_win_ignores_queried_cell_witness:
  "set_cell bottom_three 5 3 Mover 1 5 3 Mover \<noteq> bottom_three 5 3 Mover \<and>
   check_win_from_position bottom_three 5 3 Mover =
   check_win_from_position (set_cell bottom_three 5 3 Mover 1) 5 3 Mover"
proof -
  have hyp: "\<forall>r c k. (r, c) \<noteq> (5, 3) \<longrightarrow>
      bottom_three r c k = set_cell bottom_three 5 3 Mover 1 r c k"
    by (simp add: set_cell_def)
  have "set_cell bottom_three 5 3 Mover 1 5 3 Mover \<noteq> bottom_three 5 3 Mover"
    by (simp add: set_cell_def bottom_three_def pieces_board_def)
  with hyp check_win_ignores_queried_cell [OF hyp, of Mover] show ?thesis by blast
qed

end
